theory Spec2Isabelle
  imports Complex_Main "HOL-Library.Log_Nat"
begin

section \<open>Containers of the program\<close>

text \<open>
  Node identifiers and the counter \<open>r\<close> of \<open>reachable_from\<close> are C++ \<open>int\<close>, 32 bits
  wide; they are modelled as \<open>int\<close>. The counter of the model is not bounded. In the
  source \<open>r++\<close> overflows once \<open>2^31 - 1\<close> nodes have been counted, which C++ leaves
  undefined, so the model is the code for the calls that count fewer than \<open>2^31\<close>
  nodes. The statements below that say what number the counter holds are made for
  those calls only: they carry the hypothesis that fewer than \<open>2^31\<close> nodes are
  reachable.

  A \<open>std::set<int>\<close> is a finite \<open>int set\<close>; a range-for over it visits the elements in
  ascending order, which is \<open>sorted_list_of_set\<close>.

  A \<open>std::map<int, vector<int>>\<close> is a finite table with unique keys, kept as an
  association list read with \<open>map_of\<close>. The program never iterates over such a map, so
  the position of an entry in the list cannot be observed. A \<open>std::map<int, bool>\<close>
  is a partial function.
\<close>

type_synonym cascade = "(int \<times> int list) list"

text \<open>
  \<open>A[u]\<close> on a \<open>std::map\<close>: when the key is absent, an entry with a value-initialised
  mapped value (an empty vector) is inserted, and a reference to the mapped value is
  returned. The function gives the vector read and the map after the access.
\<close>

definition cascade_index :: "cascade \<Rightarrow> int \<Rightarrow> int list \<times> cascade" where
  "cascade_index A u =
     (case map_of A u of
        None \<Rightarrow> ([], (u, []) # A)
      | Some vs \<Rightarrow> (vs, A))"

text \<open>
  \<open>explored[v]\<close>: the same access on the \<open>std::map<int, bool>\<close>, whose
  value-initialised mapped value is \<open>false\<close>.
\<close>

definition explored_index :: "(int \<rightharpoonup> bool) \<Rightarrow> int \<Rightarrow> bool \<times> (int \<rightharpoonup> bool)" where
  "explored_index explored v =
     (case explored v of
        None \<Rightarrow> (False, explored(v \<mapsto> False))
      | Some b \<Rightarrow> (b, explored))"

section \<open>Double arithmetic\<close>

text \<open>
  A \<open>double\<close> is a finite value, an infinity or NaN. Finite values are kept as
  rationals, and every operation rounds its exact result to the nearest value with a
  53-bit significand, ties to the even significand (\<open>fl\<close>). The exponent range is
  not bounded and there is one zero: the program divides sums of counts by a number of
  cascades, so its values stay far inside the range of normal numbers, and the sign of
  a zero never shows in a sum, a difference or a comparison.

  \<open>expo x\<close> is the binary exponent of a positive \<open>x\<close>, the \<open>e\<close> with
  \<open>2^e \<le> x < 2^(e+1)\<close>; it is computed from the bit lengths of numerator and
  denominator.
\<close>

datatype double = Fin rat | PInf | NInf | NaN

definition expo :: "rat \<Rightarrow> int" where
  "expo x =
     (case quotient_of x of
        (a, b) \<Rightarrow> let e = bitlen a - bitlen b in if 2 powi e \<le> x then e else e - 1)"

definition round_even :: "rat \<Rightarrow> int" where
  "round_even y =
     (let f = \<lfloor>y\<rfloor>; d = y - of_int f
      in if d < 1 / 2 then f else if 1 / 2 < d then f + 1 else if even f then f else f + 1)"

definition fl :: "rat \<Rightarrow> rat" where
  "fl x =
     (if x = 0 then 0
      else let q = 2 powi (expo \<bar>x\<bar> - 52) in of_int (round_even (x / q)) * q)"

text \<open>
  The operations the program uses: \<open>+=\<close>, binary \<open>-\<close>, \<open>/\<close>, \<open>>\<close>, and the
  conversions of an \<open>int\<close> and of a \<open>size_t\<close> to \<open>double\<close>. Dividing by zero gives
  NaN for \<open>0.0 / 0\<close> and an infinity otherwise; every comparison with NaN is false.
\<close>

fun dbl_neg :: "double \<Rightarrow> double" where
  "dbl_neg (Fin x) = Fin (- x)"
| "dbl_neg PInf = NInf"
| "dbl_neg NInf = PInf"
| "dbl_neg NaN = NaN"

fun dbl_add :: "double \<Rightarrow> double \<Rightarrow> double" where
  "dbl_add (Fin x) (Fin y) = Fin (fl (x + y))"
| "dbl_add NaN b = NaN"
| "dbl_add a NaN = NaN"
| "dbl_add PInf NInf = NaN"
| "dbl_add NInf PInf = NaN"
| "dbl_add PInf b = PInf"
| "dbl_add a PInf = PInf"
| "dbl_add NInf b = NInf"
| "dbl_add a NInf = NInf"

definition dbl_sub :: "double \<Rightarrow> double \<Rightarrow> double" where
  "dbl_sub a b = dbl_add a (dbl_neg b)"

fun dbl_div :: "double \<Rightarrow> double \<Rightarrow> double" where
  "dbl_div (Fin x) (Fin y) =
     (if y = 0 then (if x = 0 then NaN else if 0 < x then PInf else NInf)
      else Fin (fl (x / y)))"
| "dbl_div NaN b = NaN"
| "dbl_div a NaN = NaN"
| "dbl_div (Fin x) b = Fin 0"
| "dbl_div PInf (Fin y) = (if 0 \<le> y then PInf else NInf)"
| "dbl_div NInf (Fin y) = (if 0 \<le> y then NInf else PInf)"
| "dbl_div a b = NaN"

fun dbl_less :: "double \<Rightarrow> double \<Rightarrow> bool" where
  "dbl_less (Fin x) (Fin y) \<longleftrightarrow> x < y"
| "dbl_less NaN b \<longleftrightarrow> False"
| "dbl_less a NaN \<longleftrightarrow> False"
| "dbl_less PInf b \<longleftrightarrow> False"
| "dbl_less a NInf \<longleftrightarrow> False"
| "dbl_less a b \<longleftrightarrow> True"

definition dbl_gt :: "double \<Rightarrow> double \<Rightarrow> bool" where
  "dbl_gt a b \<longleftrightarrow> dbl_less b a"

fun dbl_le :: "double \<Rightarrow> double \<Rightarrow> bool" where
  "dbl_le (Fin x) (Fin y) \<longleftrightarrow> x \<le> y"
| "dbl_le NaN b \<longleftrightarrow> False"
| "dbl_le a NaN \<longleftrightarrow> False"
| "dbl_le NInf b \<longleftrightarrow> True"
| "dbl_le a PInf \<longleftrightarrow> True"
| "dbl_le a b \<longleftrightarrow> False"

definition dbl_of_int :: "int \<Rightarrow> double" where
  "dbl_of_int k = Fin (fl (of_int k))"

definition dbl_of_nat :: "nat \<Rightarrow> double" where
  "dbl_of_nat n = Fin (fl (of_nat n))"

section \<open>The function \<open>reachable_from\<close>\<close>

text \<open>
  The first loop of \<open>reachable_from\<close>: for each seed, in ascending order, count it, push
  it on the queue and mark it explored. The state is the triple of the queue \<open>Q\<close> (front
  of the queue first), the map \<open>explored\<close> and the counter \<open>r\<close>; \<open>r + 1\<close> is the
  source's \<open>r++\<close> while the counter is below \<open>2^31 - 1\<close>.
\<close>

type_synonym bfs_state = "int list \<times> (int \<rightharpoonup> bool) \<times> int"

fun seed_loop :: "int list \<Rightarrow> bfs_state \<Rightarrow> bfs_state" where
  "seed_loop [] st = st"
| "seed_loop (s # ss) (Q, explored, r) = seed_loop ss (Q @ [s], explored(s \<mapsto> True), r + 1)"

text \<open>
  The inner loop \<open>for (int v : A[u])\<close>: the test \<open>!explored[v]\<close> inserts \<open>v \<mapsto> false\<close>
  when \<open>v\<close> has no entry; an unexplored \<open>v\<close> is pushed, marked and counted (again
  \<open>r + 1\<close> for \<open>r++\<close>, below \<open>2^31 - 1\<close>).
\<close>

fun visit :: "int list \<Rightarrow> bfs_state \<Rightarrow> bfs_state" where
  "visit [] st = st"
| "visit (v # vs) (Q, explored, r) =
     (case explored_index explored v of
        (b, explored') \<Rightarrow>
          if \<not> b then visit vs (Q @ [v], explored'(v \<mapsto> True), r + 1)
          else visit vs (Q, explored', r))"

text \<open>The nodes that occur in an adjacency vector of the cascade.\<close>

definition targets :: "cascade \<Rightarrow> int set" where
  "targets A = (\<Union>(u, vs) \<in> set A. set vs)"

definition unexplored :: "cascade \<Rightarrow> (int \<rightharpoonup> bool) \<Rightarrow> int set" where
  "unexplored A explored = {v \<in> targets A. explored v \<noteq> Some True}"

lemma finite_targets [simp]: "finite (targets A)"
  by (auto simp: targets_def)

lemma finite_unexplored [simp]: "finite (unexplored A explored)"
  by (simp add: unexplored_def)

lemma cascade_index_cases:
  assumes "cascade_index A u = (vs, A')"
  shows "(map_of A u = None \<and> vs = [] \<and> A' = (u, []) # A) \<or> (map_of A u = Some vs \<and> A' = A)"
  using assms by (auto simp: cascade_index_def split: option.splits)

lemma targets_cascade_index:
  assumes "cascade_index A u = (vs, A')"
  shows "targets A' = targets A" and "set vs \<subseteq> targets A"
proof -
  from cascade_index_cases [OF assms] show "targets A' = targets A"
    by (fastforce simp: targets_def)
  from cascade_index_cases [OF assms] show "set vs \<subseteq> targets A"
  proof
    assume "map_of A u = None \<and> vs = [] \<and> A' = (u, []) # A"
    then show ?thesis by simp
  next
    assume "map_of A u = Some vs \<and> A' = A"
    then have "(u, vs) \<in> set A" by (simp add: map_of_SomeD)
    then show ?thesis by (auto simp: targets_def)
  qed
qed

text \<open>
  What the inner loop does to the measure of the outer loop: either nothing was pushed,
  or a node of the adjacency vector that was not explored is explored now.
\<close>

lemma visit_progress:
  assumes "visit vs (Q, explored, r) = (Q', explored', r')"
    and "set vs \<subseteq> targets A"
  shows "unexplored A explored' \<subseteq> unexplored A explored \<and>
         (Q' = Q \<or> unexplored A explored' \<subset> unexplored A explored)"
  using assms
proof (induction vs arbitrary: Q explored r)
  case Nil
  then show ?case by simp
next
  case (Cons v vs)
  show ?case
  proof (cases "explored v = Some True")
    case True
    with Cons.prems have "visit vs (Q, explored, r) = (Q', explored', r')"
      by (simp add: explored_index_def)
    with Cons.IH Cons.prems(2) show ?thesis by simp
  next
    case False
    let ?e = "explored(v \<mapsto> True)"
    from False Cons.prems have step: "visit vs (Q @ [v], ?e, r + 1) = (Q', explored', r')"
      by (cases "explored v") (auto simp: explored_index_def)
    from Cons.prems(2) have "v \<in> targets A" by simp
    with False have "v \<in> unexplored A explored" "v \<notin> unexplored A ?e"
      by (simp_all add: unexplored_def)
    moreover have "unexplored A ?e \<subseteq> unexplored A explored"
      by (auto simp: unexplored_def split: if_splits)
    ultimately have less: "unexplored A ?e \<subset> unexplored A explored" by blast
    from Cons.prems(2) have sub: "set vs \<subseteq> targets A" by simp
    from Cons.IH [OF step sub]
    have "unexplored A explored' \<subseteq> unexplored A ?e" by blast
    with less show ?thesis by blast
  qed
qed

text \<open>
  The order in which the loop \<open>while (!Q.empty())\<close> descends: the set of unexplored
  nodes of the adjacency vectors shrinks, or it stays and the queue gets shorter.
\<close>

definition bfs_order ::
  "((cascade \<times> int list \<times> (int \<rightharpoonup> bool) \<times> int) \<times>
    (cascade \<times> int list \<times> (int \<rightharpoonup> bool) \<times> int)) set" where
  "bfs_order =
     inv_image (finite_psubset <*lex*> measure length)
       (\<lambda>(A, Q, explored, r). (unexplored A explored, Q))"

lemma wf_bfs_order: "wf bfs_order"
  unfolding bfs_order_def
  by (intro wf_inv_image wf_lex_prod wf_finite_psubset wf_measure)

lemma bfs_step_decreases:
  assumes idx: "cascade_index A u = (vs, A')"
    and vis: "visit vs (Q, explored, r) = (Q', explored', r')"
  shows "((A', Q', explored', r'), (A, u # Q, explored, r)) \<in> bfs_order"
proof -
  from targets_cascade_index [OF idx]
  have t: "targets A' = targets A" and sub: "set vs \<subseteq> targets A" .
  from t have u: "unexplored A' explored' = unexplored A explored'"
    by (simp add: unexplored_def)
  from visit_progress [OF vis sub] show ?thesis
    by (auto simp: u bfs_order_def)
qed

text \<open>
  The loop \<open>while (!Q.empty())\<close>. The map \<open>A\<close> is a reference parameter and \<open>A[u]\<close>
  may insert into it, so the map is part of the loop state and is returned with the
  counter. The recursion is well-founded along \<open>bfs_order\<close>.
\<close>

function bfs_loop :: "cascade \<Rightarrow> int list \<Rightarrow> (int \<rightharpoonup> bool) \<Rightarrow> int \<Rightarrow> int \<times> cascade" where
  "bfs_loop A [] explored r = (r, A)"
| "bfs_loop A (u # Q) explored r =
     (case cascade_index A u of
        (vs, A') \<Rightarrow>
          (case visit vs (Q, explored, r) of
             (Q', explored', r') \<Rightarrow> bfs_loop A' Q' explored' r'))"
  by pat_completeness auto
termination
proof (relation bfs_order, goal_cases)
  case 1
  show ?case by (rule wf_bfs_order)
next
  case (2 A u Q explored r vs A' Q' rest explored' r')
  then have "cascade_index A u = (vs, A')"
    and "visit vs (Q, explored, r) = (Q', explored', r')"
    by simp_all
  then show ?case by (rule bfs_step_decreases)
qed

text \<open>
  \<open>reachable_from(A, S)\<close>: the counter returned, and the map \<open>A\<close> as the call leaves it.
  The set \<open>S\<close> is only read. The value returned is the source's \<open>int\<close> when it is below
  \<open>2^31\<close>.
\<close>

definition reachable_from :: "cascade \<Rightarrow> int set \<Rightarrow> int \<times> cascade" where
  "reachable_from A S =
     (case seed_loop (sorted_list_of_set S) ([], Map.empty, 0) of
        (Q, explored, r) \<Rightarrow> bfs_loop A Q explored r)"

section \<open>The function \<open>calculate_influence\<close>\<close>

text \<open>
  The loop \<open>for (map<int, vector<int> > A : cascades)\<close> binds \<open>A\<close> by value: each
  round copies the next cascade into a fresh local, and \<open>reachable_from\<close> works on
  that local. The map it leaves behind (\<open>A_copy\<close>) goes out of scope at the end of the
  round. The function returns the average and the vector \<open>cascades\<close> as the caller
  finds it after the call.
\<close>

fun influence_loop :: "cascade list \<Rightarrow> int set \<Rightarrow> double \<Rightarrow> double" where
  "influence_loop [] S influence = influence"
| "influence_loop (A # rest) S influence =
     (case reachable_from A S of
        (influence_A, A_copy) \<Rightarrow> influence_loop rest S (dbl_add influence (dbl_of_int influence_A)))"

definition calculate_influence :: "cascade list \<Rightarrow> int set \<Rightarrow> double \<times> cascade list" where
  "calculate_influence cascades S =
     (let influence = influence_loop cascades S (Fin 0)
      in (dbl_div influence (dbl_of_nat (length cascades)), cascades))"

text \<open>
  The same function with its objects in memory. The memory is a list of maps and a
  reference is the index of a cell: the elements of the vector \<open>cascades\<close> are the cells
  \<open>0\<close> to \<open>n - 1\<close>, and the loop variable \<open>A\<close> of a round is a cell pushed behind them,
  copy-constructed from the element of the round and popped at the end of the round.
  \<open>reachable_from_ref\<close> is the call of \<open>reachable_from\<close> on a reference: it reads the
  map of the cell and writes it back. The loop runs over the indices of the vector, so
  every cell it reads exists.
\<close>

definition reachable_from_ref :: "cascade list \<Rightarrow> nat \<Rightarrow> int set \<Rightarrow> int \<times> cascade list" where
  "reachable_from_ref mem a S =
     (case reachable_from (mem ! a) S of (r, A') \<Rightarrow> (r, mem[a := A']))"

fun influence_loop_mem ::
  "nat list \<Rightarrow> cascade list \<Rightarrow> int set \<Rightarrow> double \<Rightarrow> double \<times> cascade list" where
  "influence_loop_mem [] mem S influence = (influence, mem)"
| "influence_loop_mem (i # rest) mem S influence =
     (let A = length mem;
          mem_copy = mem @ [mem ! i]
      in case reachable_from_ref mem_copy A S of
           (influence_A, mem_call) \<Rightarrow>
             influence_loop_mem rest (butlast mem_call) S
               (dbl_add influence (dbl_of_int influence_A)))"

definition calculate_influence_mem :: "cascade list \<Rightarrow> int set \<Rightarrow> double \<times> cascade list" where
  "calculate_influence_mem cascades S =
     (case influence_loop_mem [0..<length cascades] cascades S (Fin 0) of
        (influence, mem) \<Rightarrow> (dbl_div influence (dbl_of_nat (length cascades)), mem))"

section \<open>The greedy loop of main\<close>

text \<open>
  The state between rounds is the pair of the set \<open>S\<close> and \<open>previous_influence\<close>.
  \<open>scan\<close> is the loop \<open>for (int u : V)\<close> of one round, with the three locals
  \<open>max_delta\<close>, \<open>max_influence\<close> and \<open>max_delta_node\<close>; \<open>greedy_round\<close> is the
  body of the outer loop, \<open>greedy_loop\<close> the outer loop, and \<open>greedy\<close> the whole
  selection for a vertex set, a vector of cascades and the number of rounds
  (\<open>PARAM_K\<close> in the source). \<open>calculate_influence\<close> hands the vector of cascades
  back as it got it, so every call of a run is made on the same vector.
\<close>

type_synonym selection = "int set \<times> double"

type_synonym best = "double \<times> double \<times> int"

fun scan :: "int list \<Rightarrow> cascade list \<Rightarrow> int set \<Rightarrow> double \<Rightarrow> best \<Rightarrow> best" where
  "scan [] cascades S prev b = b"
| "scan (u # us) cascades S prev (max_delta, max_influence, max_delta_node) =
     (if u \<notin> S then
        (let T = insert u S;
             influence_T = fst (calculate_influence cascades T);
             delta = dbl_sub influence_T prev
         in if dbl_gt delta max_delta
            then scan us cascades S prev (delta, influence_T, u)
            else scan us cascades S prev (max_delta, max_influence, max_delta_node))
      else scan us cascades S prev (max_delta, max_influence, max_delta_node))"

fun greedy_round :: "int set \<Rightarrow> cascade list \<Rightarrow> selection \<Rightarrow> selection" where
  "greedy_round V cascades (S, previous_influence) =
     (case scan (sorted_list_of_set V) cascades S previous_influence
             (Fin (- 1), Fin (- 1), - 1) of
        (max_delta, max_influence, max_delta_node) \<Rightarrow>
          (insert max_delta_node S, max_influence))"

function greedy_loop :: "int \<Rightarrow> int \<Rightarrow> int set \<Rightarrow> cascade list \<Rightarrow> selection \<Rightarrow> selection" where
  "greedy_loop iter K V cascades st =
     (if iter < K then greedy_loop (iter + 1) K V cascades (greedy_round V cascades st) else st)"
  by pat_completeness auto
termination
  by (relation "measure (\<lambda>(iter, K, V, cascades, st). nat (K - iter))") auto

definition greedy :: "int set \<Rightarrow> cascade list \<Rightarrow> int \<Rightarrow> selection" where
  "greedy V cascades K = greedy_loop 0 K V cascades ({}, Fin 0)"

section \<open>Reachability in a cascade\<close>

text \<open>
  The directed edges a cascade records, and the nodes reachable from a seed set along
  them (every seed reaches itself). \<open>marked\<close> is the set of nodes whose entry in
  \<open>explored\<close> is \<open>true\<close>.
\<close>

definition edges :: "cascade \<Rightarrow> (int \<times> int) set" where
  "edges A = {(u, v). \<exists>vs. map_of A u = Some vs \<and> v \<in> set vs}"

definition reach :: "cascade \<Rightarrow> int set \<Rightarrow> int set" where
  "reach A S = (edges A)\<^sup>* `` S"

definition marked :: "(int \<rightharpoonup> bool) \<Rightarrow> int set" where
  "marked explored = {v. explored v = Some True}"

text \<open>
  The invariant of the loop \<open>while (!Q.empty())\<close>, for the call on the map \<open>A0\<close>
  and the seed set \<open>S\<close>.
\<close>

definition bfs_inv ::
  "cascade \<Rightarrow> int set \<Rightarrow> cascade \<Rightarrow> int list \<Rightarrow> (int \<rightharpoonup> bool) \<Rightarrow> int \<Rightarrow> bool" where
  "bfs_inv A0 S A Q explored r \<longleftrightarrow>
     finite (marked explored) \<and> r = int (card (marked explored)) \<and>
     set Q \<subseteq> marked explored \<and> S \<subseteq> marked explored \<and> marked explored \<subseteq> reach A0 S \<and>
     (\<forall>u \<in> marked explored - set Q. edges A0 `` {u} \<subseteq> marked explored) \<and>
     edges A = edges A0 \<and>
     marked explored \<subseteq> dom (map_of A) \<union> set Q \<and>
     dom (map_of A) \<subseteq> dom (map_of A0) \<union> marked explored \<and>
     (\<forall>k. map_of A k = map_of A0 k \<or> (map_of A0 k = None \<and> map_of A k = Some []))"

text \<open>
  The sum that \<open>calculate_influence\<close> accumulates, as a rational: every addition
  rounds. \<open>total_reach\<close> is the exact sum of the counts.
\<close>

fun rounded_sum :: "cascade list \<Rightarrow> int set \<Rightarrow> rat \<Rightarrow> rat" where
  "rounded_sum [] S a = a"
| "rounded_sum (A # rest) S a =
     rounded_sum rest S (fl (a + fl (of_int (fst (reachable_from A S)))))"

definition total_reach :: "cascade list \<Rightarrow> int set \<Rightarrow> int" where
  "total_reach cascades S = (\<Sum>A\<leftarrow>cascades. fst (reachable_from A S))"

section \<open>Notions for the greedy loop\<close>

text \<open>
  Over at least one cascade every value of \<open>calculate_influence\<close> is finite:
  \<open>influence_rat\<close> is that value as a rational, \<open>gain\<close> is the difference \<open>delta\<close>
  that a round computes for a candidate, and \<open>gain_rat\<close> is the gain as a rational.
\<close>

definition influence_rat :: "cascade list \<Rightarrow> int set \<Rightarrow> rat" where
  "influence_rat cascades T = fl (rounded_sum cascades T 0 / fl (of_nat (length cascades)))"

definition gain_rat :: "cascade list \<Rightarrow> int set \<Rightarrow> rat \<Rightarrow> int \<Rightarrow> rat" where
  "gain_rat cascades S p v = fl (influence_rat cascades (insert v S) - p)"

definition gain :: "cascade list \<Rightarrow> int set \<Rightarrow> double \<Rightarrow> int \<Rightarrow> double" where
  "gain cascades S prev v = dbl_sub (fst (calculate_influence cascades (insert v S))) prev"

text \<open>
  The invariant of the loop \<open>for (int u : V)\<close> over the set \<open>P\<close> of nodes visited so
  far: either the three locals still hold their initial values and no candidate had a
  gain above \<open>-1\<close>, or they hold the gain, the influence and the identifier of the
  first candidate of largest gain.
\<close>

definition scan_inv :: "cascade list \<Rightarrow> int set \<Rightarrow> rat \<Rightarrow> int set \<Rightarrow> best \<Rightarrow> bool" where
  "scan_inv cascades S p P b \<longleftrightarrow>
     (b = (Fin (- 1), Fin (- 1), - 1) \<and> (\<forall>v \<in> P - S. gain_rat cascades S p v \<le> - 1)) \<or>
     (\<exists>u \<in> P - S.
        b = (Fin (gain_rat cascades S p u), Fin (influence_rat cascades (insert u S)), u) \<and>
        (\<forall>v \<in> P - S. gain_rat cascades S p v \<le> gain_rat cascades S p u) \<and>
        (\<forall>v \<in> P - S. v < u \<longrightarrow> gain_rat cascades S p v < gain_rat cascades S p u))"

text \<open>
  A bound on the size of the input, under which rounding cannot merge the averages of
  two different sums of counts: the number of cascades times the number of nodes is at
  most \<open>2^50\<close>.
\<close>

definition count_bound :: "int set \<Rightarrow> cascade list \<Rightarrow> bool" where
  "count_bound V cascades \<longleftrightarrow>
     int (length cascades) * int (card (V \<union> (\<Union>A \<in> set cascades. targets A))) \<le> 2 ^ 50"

text \<open>
  The values of \<open>previous_influence\<close> at the end of rounds 1 to \<open>K\<close>. The rounds do
  not depend on \<open>K\<close>, so the value at the end of round \<open>i\<close> is the result of a run of
  \<open>i\<close> rounds (\<open>greedy_Suc\<close> below).
\<close>

definition influence_trace :: "int set \<Rightarrow> cascade list \<Rightarrow> nat \<Rightarrow> double list" where
  "influence_trace V cascades K = map (\<lambda>i. snd (greedy V cascades (int i))) [1..<Suc K]"

section \<open>Properties of rounding\<close>

lemma powi_two_pos [simp]: "0 < (2::rat) powi e"
  by (simp add: zero_less_power_int)

lemma powi_two_mono: "e \<le> e' \<Longrightarrow> (2::rat) powi e \<le> 2 powi e'"
  by (rule power_int_increasing) simp_all

lemma powi_two_strict_mono: "e < e' \<Longrightarrow> (2::rat) powi e < 2 powi e'"
  by (rule power_int_strict_increasing) simp_all

lemma powi_two_Suc: "(2::rat) powi (e + 1) = 2 * 2 powi e"
  by (simp add: power_int_add)

lemma bitlen_bounds_rat:
  assumes "0 < a"
  shows "(2::rat) powi (bitlen a - 1) \<le> of_int a" and "of_int a < (2::rat) powi bitlen a"
proof -
  from assms have b1: "1 \<le> bitlen a"
    using bitlen_eq_zero_iff [of a] bitlen_nonneg [of a] by linarith
  from bitlen_bounds [OF assms]
  have l: "2 ^ nat (bitlen a - 1) \<le> a" and u: "a < 2 ^ nat (bitlen a)" by simp_all
  from l have "of_int ((2::int) ^ nat (bitlen a - 1)) \<le> (of_int a :: rat)"
    by (simp only: of_int_le_iff)
  with b1 show "(2::rat) powi (bitlen a - 1) \<le> of_int a"
    by (simp add: power_int_def)
  from u have "(of_int a :: rat) < of_int ((2::int) ^ nat (bitlen a))"
    by (simp only: of_int_less_iff)
  with b1 show "of_int a < (2::rat) powi bitlen a"
    by (simp add: power_int_def)
qed

lemma expo_bounds:
  assumes "0 < x"
  shows "2 powi expo x \<le> x" and "x < 2 powi (expo x + 1)"
proof -
  obtain a b where q: "quotient_of x = (a, b)" by (cases "quotient_of x")
  from quotient_of_denom_pos [OF q] have b: "0 < b" .
  from quotient_of_div [OF q] have x: "x = of_int a / of_int b" .
  from assms b x have a: "0 < a"
    by (simp add: zero_less_divide_iff)
  let ?e = "bitlen a - bitlen b"
  note A = bitlen_bounds_rat [OF a] and B = bitlen_bounds_rat [OF b]
  from b have b': "0 < (of_int b :: rat)" by simp
  have "x < 2 powi bitlen a / 2 powi (bitlen b - 1)"
  proof -
    have "x < 2 powi bitlen a / of_int b"
      unfolding x using A(2) b' by (simp add: divide_strict_right_mono)
    also have "\<dots> \<le> 2 powi bitlen a / 2 powi (bitlen b - 1)"
      using B(1) by (simp add: frac_le)
    finally show ?thesis .
  qed
  also have "\<dots> = 2 powi (?e + 1)"
    by (simp add: power_int_diff power_int_add)
  finally have up: "x < 2 powi (?e + 1)" .
  have "(2::rat) powi (bitlen a - 1) / 2 powi bitlen b \<le> of_int a / 2 powi bitlen b"
    using A(1) by (simp add: divide_right_mono)
  also have "\<dots> \<le> x"
    unfolding x using B(2) b' a by (simp add: frac_le)
  finally have "2 powi (bitlen a - 1) / 2 powi bitlen b \<le> x" .
  moreover have "2 powi (bitlen a - 1) / 2 powi bitlen b = (2::rat) powi (?e - 1)"
    by (simp add: power_int_diff)
  ultimately have lo: "2 powi (?e - 1) \<le> x" by simp
  have e: "expo x = (if 2 powi ?e \<le> x then ?e else ?e - 1)"
    by (simp add: expo_def q Let_def)
  from lo e show "2 powi expo x \<le> x" by auto
  from up e show "x < 2 powi (expo x + 1)"
    by (auto simp: not_le)
qed

lemma expo_unique:
  assumes "2 powi e \<le> x" and "x < 2 powi (e + 1)"
  shows "expo x = e"
proof -
  from assms(1) have pos: "0 < x"
    using powi_two_pos [of e] by linarith
  note E = expo_bounds [OF pos]
  have "\<not> expo x < e"
  proof
    assume "expo x < e"
    then have "expo x + 1 \<le> e" by simp
    from powi_two_mono [OF this] E(2) assms(1) show False by linarith
  qed
  moreover have "\<not> e < expo x"
  proof
    assume "e < expo x"
    then have "e + 1 \<le> expo x" by simp
    from powi_two_mono [OF this] E(1) assms(2) show False by linarith
  qed
  ultimately show ?thesis by linarith
qed

lemma expo_mono:
  assumes "0 < x" and "x \<le> y"
  shows "expo x \<le> expo y"
proof (rule ccontr)
  assume "\<not> expo x \<le> expo y"
  then have "expo y + 1 \<le> expo x" by simp
  from powi_two_mono [OF this] expo_bounds(1) [OF assms(1)] expo_bounds(2) [of y] assms
  show False by linarith
qed

lemma round_even_bounds: "\<bar>of_int (round_even y) - y\<bar> \<le> 1 / 2"
proof -
  define f where "f = \<lfloor>y\<rfloor>"
  have "of_int f \<le> y" "y < of_int f + 1" unfolding f_def by linarith+
  then show ?thesis
    unfolding round_even_def Let_def f_def [symmetric] by auto
qed

lemma round_even_of_int [simp]: "round_even (of_int k) = k"
  by (simp add: round_even_def)

lemma round_even_mono:
  assumes "y \<le> z"
  shows "round_even y \<le> round_even z"
proof (cases "\<lfloor>y\<rfloor> = \<lfloor>z\<rfloor>")
  case True
  with assms show ?thesis
    by (auto simp: round_even_def Let_def)
next
  case False
  with assms have "\<lfloor>y\<rfloor> + 1 \<le> \<lfloor>z\<rfloor>"
    using floor_mono [OF assms] by linarith
  moreover have "round_even y \<le> \<lfloor>y\<rfloor> + 1" "\<lfloor>z\<rfloor> \<le> round_even z"
    by (auto simp: round_even_def Let_def)
  ultimately show ?thesis by linarith
qed

lemma round_even_minus: "round_even (- y) = - round_even y"
proof (cases "y \<in> \<int>")
  case True
  then obtain k where "y = of_int k" by (auto elim: Ints_cases)
  then have "- y = of_int (- k)" by simp
  then show ?thesis unfolding \<open>y = of_int k\<close> by (simp only: round_even_of_int)
next
  case False
  then have ne: "y \<noteq> of_int \<lfloor>y\<rfloor>" by (metis Ints_of_int)
  then have f: "\<lfloor>- y\<rfloor> = - \<lfloor>y\<rfloor> - 1"
    by (simp add: floor_minus ceiling_altdef)
  define g where "g = \<lfloor>y\<rfloor>"
  have "of_int g \<le> y" "y < of_int g + 1" unfolding g_def by linarith+
  moreover from ne have "y \<noteq> of_int g" by (simp add: g_def)
  ultimately show ?thesis
    unfolding round_even_def Let_def f g_def [symmetric] by (auto simp: field_simps)
qed

lemma fl_zero [simp]: "fl 0 = 0"
  by (simp add: fl_def)

lemma fl_minus: "fl (- x) = - fl x"
  by (simp add: fl_def Let_def round_even_minus)

lemma fl_pos:
  assumes "0 < x"
  shows "fl x = of_int (round_even (x / 2 powi (expo x - 52))) * 2 powi (expo x - 52)"
  using assms by (simp add: fl_def Let_def)

lemma mantissa_bounds:
  assumes "0 < x"
  shows "2 ^ 52 \<le> x / 2 powi (expo x - 52)" and "x / 2 powi (expo x - 52) < 2 ^ 53"
proof -
  let ?q = "(2::rat) powi (expo x - 52)"
  have q: "0 < ?q" by simp
  have lo: "2 powi expo x = 2 ^ 52 * ?q"
    by (simp add: power_int_diff)
  have hi: "2 powi (expo x + 1) = 2 ^ 53 * ?q"
    by (simp add: power_int_diff power_int_add)
  from expo_bounds(1) [OF assms] lo have "2 ^ 52 * ?q \<le> x" by simp
  with q show "2 ^ 52 \<le> x / ?q" by (simp add: pos_le_divide_eq)
  from expo_bounds(2) [OF assms] hi have "x < 2 ^ 53 * ?q" by simp
  with q show "x / ?q < 2 ^ 53" by (simp add: pos_divide_less_eq)
qed

lemma round_mantissa_bounds:
  assumes "0 < x"
  shows "2 ^ 52 \<le> round_even (x / 2 powi (expo x - 52))"
    and "round_even (x / 2 powi (expo x - 52)) \<le> 2 ^ 53"
proof -
  let ?y = "x / 2 powi (expo x - 52)"
  have "round_even (of_int (2 ^ 52)) \<le> round_even ?y"
    by (rule round_even_mono) (use mantissa_bounds(1) [OF assms] in simp)
  then show "2 ^ 52 \<le> round_even ?y" by (simp only: round_even_of_int)
  have "round_even ?y \<le> round_even (of_int (2 ^ 53))"
    by (rule round_even_mono) (use mantissa_bounds(2) [OF assms] in simp)
  then show "round_even ?y \<le> 2 ^ 53" by (simp only: round_even_of_int)
qed

lemma fl_pos_bounds:
  assumes "0 < x"
  shows "2 powi expo x \<le> fl x" and "fl x \<le> 2 powi (expo x + 1)"
proof -
  let ?q = "(2::rat) powi (expo x - 52)"
  let ?m = "round_even (x / ?q)"
  have q: "0 < ?q" by simp
  have lo: "2 powi expo x = 2 ^ 52 * ?q"
    by (simp add: power_int_diff)
  have hi: "2 powi (expo x + 1) = 2 ^ 53 * ?q"
    by (simp add: power_int_diff power_int_add)
  from round_mantissa_bounds [OF assms]
  have "(of_int (2 ^ 52) :: rat) \<le> of_int ?m" and "(of_int ?m :: rat) \<le> of_int (2 ^ 53)"
    by (simp_all only: of_int_le_iff)
  then have "2 ^ 52 * ?q \<le> of_int ?m * ?q" and "of_int ?m * ?q \<le> 2 ^ 53 * ?q"
    using q by (simp_all add: mult_right_mono)
  then show "2 powi expo x \<le> fl x" and "fl x \<le> 2 powi (expo x + 1)"
    unfolding fl_pos [OF assms] lo hi by simp_all
qed

lemma fl_pos_gt: "0 < x \<Longrightarrow> 0 < fl x"
  using fl_pos_bounds(1) [of x] powi_two_pos [of "expo x"] by linarith

lemma fl_mono_pos:
  assumes "0 < x" and "x \<le> y"
  shows "fl x \<le> fl y"
proof -
  from assms have y: "0 < y" by simp
  from expo_mono [OF assms] have "expo x = expo y \<or> expo x + 1 \<le> expo y" by linarith
  then show ?thesis
  proof
    assume e: "expo x = expo y"
    let ?q = "(2::rat) powi (expo y - 52)"
    have q: "0 < ?q" by simp
    from assms(2) q have "x / ?q \<le> y / ?q" by (simp add: divide_right_mono)
    from round_even_mono [OF this]
    have "(of_int (round_even (x / ?q)) :: rat) \<le> of_int (round_even (y / ?q))"
      by (simp only: of_int_le_iff)
    with q have "of_int (round_even (x / ?q)) * ?q \<le> of_int (round_even (y / ?q)) * ?q"
      by (simp add: mult_right_mono)
    then show ?thesis
      unfolding fl_pos [OF assms(1)] fl_pos [OF y] e .
  next
    assume "expo x + 1 \<le> expo y"
    from powi_two_mono [OF this] fl_pos_bounds(2) [OF assms(1)] fl_pos_bounds(1) [OF y]
    show ?thesis by linarith
  qed
qed

lemma fl_mono:
  assumes "x \<le> y"
  shows "fl x \<le> fl y"
proof -
  consider "0 < x" | "x \<le> 0" "0 \<le> y" | "y < 0" by linarith
  then show ?thesis
  proof cases
    case 1
    from 1 assms show ?thesis by (rule fl_mono_pos)
  next
    case 2
    have "fl x \<le> 0"
    proof (cases "x = 0")
      case False
      with 2 have "0 < - x" by simp
      from fl_pos_gt [OF this] show ?thesis by (simp add: fl_minus)
    qed simp
    moreover have "0 \<le> fl y"
    proof (cases "y = 0")
      case False
      with 2 have "0 < y" by simp
      from fl_pos_gt [OF this] show ?thesis by simp
    qed simp
    ultimately show ?thesis by simp
  next
    case 3
    with assms have "0 < - y" "- y \<le> - x" by simp_all
    from fl_mono_pos [OF this] show ?thesis by (simp add: fl_minus)
  qed
qed

lemma fl_error_pos:
  assumes "0 < x"
  shows "\<bar>fl x - x\<bar> \<le> x / 2 ^ 53"
proof -
  let ?q = "(2::rat) powi (expo x - 52)"
  let ?m = "round_even (x / ?q)"
  have q: "0 < ?q" by simp
  have x: "x = (x / ?q) * ?q" by simp
  have "\<bar>of_int ?m - x / ?q\<bar> \<le> 1 / 2"
    by (rule round_even_bounds)
  then have "\<bar>of_int ?m - x / ?q\<bar> * ?q \<le> (1 / 2) * ?q"
    using q by (simp add: mult_right_mono)
  moreover have "\<bar>of_int ?m - x / ?q\<bar> * ?q = \<bar>of_int ?m * ?q - x\<bar>"
  proof -
    have "\<bar>of_int ?m - x / ?q\<bar> * ?q = \<bar>(of_int ?m - x / ?q) * ?q\<bar>"
      using q by (simp add: abs_mult)
    also have "(of_int ?m - x / ?q) * ?q = of_int ?m * ?q - x"
      using q by (simp add: left_diff_distrib)
    finally show ?thesis .
  qed
  moreover have "(1 / 2) * ?q = 2 powi expo x / 2 ^ 53"
    by (simp add: power_int_diff)
  moreover have "2 powi expo x / 2 ^ 53 \<le> x / 2 ^ 53"
    using expo_bounds(1) [OF assms] by (simp add: divide_right_mono)
  ultimately show ?thesis
    unfolding fl_pos [OF assms] by linarith
qed

lemma fl_error: "\<bar>fl x - x\<bar> \<le> \<bar>x\<bar> / 2 ^ 53"
proof -
  consider "0 < x" | "x = 0" | "0 < - x" by linarith
  then show ?thesis
  proof cases
    case 1
    from fl_error_pos [OF 1] 1 show ?thesis by simp
  next
    case 2
    then show ?thesis by simp
  next
    case 3
    from fl_error_pos [OF 3] have "\<bar>- (fl x - x)\<bar> \<le> - x / 2 ^ 53"
      by (simp add: fl_minus)
    then have "\<bar>fl x - x\<bar> \<le> - x / 2 ^ 53"
      by (simp only: abs_minus_cancel)
    with 3 show ?thesis by simp
  qed
qed

lemma fl_exact_pos:
  assumes "0 < x" and "x / 2 powi (expo x - 52) = of_int k"
  shows "fl x = x"
proof -
  have "fl x = of_int k * 2 powi (expo x - 52)"
    unfolding fl_pos [OF assms(1)] assms(2) by (simp only: round_even_of_int)
  also have "\<dots> = x"
    unfolding assms(2) [symmetric] by simp
  finally show ?thesis .
qed

lemma fl_of_int_pos:
  assumes "0 < k" and "k \<le> 2 ^ 53"
  shows "fl (of_int k) = of_int k"
proof (cases "k = 2 ^ 53")
  case True
  have e: "expo (of_int k) = 53"
    by (rule expo_unique) (simp_all add: True)
  have "of_int k / 2 powi (expo (of_int k) - 52) = (of_int (2 ^ 52) :: rat)"
    unfolding e by (simp add: True)
  moreover have "0 < (of_int k :: rat)"
    using assms(1) by simp
  ultimately show ?thesis
    by (rule fl_exact_pos [rotated])
next
  case False
  let ?x = "of_int k :: rat"
  from assms have pos: "0 < ?x" by simp
  from False assms have "k < 2 ^ 53" by simp
  then have "?x < of_int (2 ^ 53)" by (simp only: of_int_less_iff)
  then have lt: "?x < 2 powi 53" by simp
  have le: "expo ?x \<le> 52"
  proof (rule ccontr)
    assume "\<not> expo ?x \<le> 52"
    then have "53 \<le> expo ?x" by simp
    from powi_two_mono [OF this] expo_bounds(1) [OF pos] lt show False by linarith
  qed
  define n where "n = nat (52 - expo ?x)"
  with le have en: "expo ?x - 52 = - int n" by simp
  have q: "(2::rat) powi (expo ?x - 52) = 1 / 2 ^ n"
    unfolding en by (simp add: power_int_minus field_simps)
  show ?thesis
    by (rule fl_exact_pos [OF pos, where k = "k * 2 ^ n"]) (simp add: q)
qed

lemma fl_of_int:
  assumes "\<bar>k\<bar> \<le> 2 ^ 53"
  shows "fl (of_int k) = of_int k"
proof -
  consider "0 < k" | "k = 0" | "0 < - k" by linarith
  then show ?thesis
  proof cases
    case 1
    with assms show ?thesis by (simp add: fl_of_int_pos)
  next
    case 2
    then show ?thesis by simp
  next
    case 3
    with assms have "- k \<le> 2 ^ 53" by simp
    from fl_of_int_pos [OF 3 this] show ?thesis by (simp add: fl_minus)
  qed
qed

lemma fl_half_pos:
  assumes "0 < x"
  shows "fl (x / 2) = fl x / 2"
proof -
  from assms have h: "0 < x / 2" by simp
  have e: "expo (x / 2) = expo x - 1"
  proof (rule expo_unique)
    from expo_bounds(1) [OF assms] show "2 powi (expo x - 1) \<le> x / 2"
      by (simp add: power_int_diff)
    from expo_bounds(2) [OF assms] show "x / 2 < 2 powi (expo x - 1 + 1)"
      by (simp add: power_int_add)
  qed
  have q: "(2::rat) powi (expo x - 1 - 52) = 2 powi (expo x - 52) / 2"
    by (simp add: power_int_diff)
  show ?thesis
    unfolding fl_pos [OF h] fl_pos [OF assms] e q by simp
qed

lemma fl_half: "fl (x / 2) = fl x / 2"
proof -
  consider "0 < x" | "x = 0" | "0 < - x" by linarith
  then show ?thesis
  proof cases
    case 1
    then show ?thesis by (rule fl_half_pos)
  next
    case 2
    then show ?thesis by simp
  next
    case 3
    from fl_half_pos [OF 3] have "fl (- (x / 2)) = - (fl x / 2)"
      by (simp add: fl_minus)
    then show ?thesis by (simp add: fl_minus)
  qed
qed

section \<open>The traversal counts the reachable nodes\<close>

lemma edges_subset_targets: "(u, v) \<in> edges A \<Longrightarrow> v \<in> targets A"
  by (auto simp: edges_def targets_def dest!: map_of_SomeD)

lemma reach_subset: "reach A S \<subseteq> S \<union> targets A"
proof
  fix v assume "v \<in> reach A S"
  then obtain s where "s \<in> S" and "(s, v) \<in> (edges A)\<^sup>*"
    by (auto simp: reach_def)
  from this(2) this(1) show "v \<in> S \<union> targets A"
    by (induction rule: rtrancl_induct) (auto dest: edges_subset_targets)
qed

lemma finite_reach: "finite S \<Longrightarrow> finite (reach A S)"
  by (rule finite_subset [OF reach_subset]) simp

lemma reach_mono: "S \<subseteq> T \<Longrightarrow> reach A S \<subseteq> reach A T"
  by (auto simp: reach_def)

lemma seeds_in_reach: "S \<subseteq> reach A S"
  by (auto simp: reach_def)

lemma cascade_index_edges:
  assumes "cascade_index A u = (vs, A')"
  shows "edges A' = edges A" and "set vs = edges A `` {u}"
  using cascade_index_cases [OF assms]
  by (auto simp: edges_def split: if_splits)

lemma seed_loop_effect:
  assumes "seed_loop ss (Q, explored, r) = (Q', explored', r')"
  shows "Q' = Q @ ss \<and> marked explored' = marked explored \<union> set ss \<and> r' = r + int (length ss)"
  using assms
proof (induction ss arbitrary: Q explored r)
  case Nil
  then show ?case by simp
next
  case (Cons s ss)
  from Cons.prems have "seed_loop ss (Q @ [s], explored(s \<mapsto> True), r + 1) = (Q', explored', r')"
    by simp
  from Cons.IH [OF this] show ?case
    by (auto simp: marked_def)
qed

lemma visit_effect:
  assumes "visit vs (Q, explored, r) = (Q', explored', r')"
    and "finite (marked explored)"
  shows "set Q' = set Q \<union> (set vs - marked explored) \<and>
         marked explored' = marked explored \<union> set vs \<and>
         r' = r + int (card (marked explored')) - int (card (marked explored))"
  using assms
proof (induction vs arbitrary: Q explored r)
  case Nil
  then show ?case by simp
next
  case (Cons v vs)
  show ?case
  proof (cases "explored v = Some True")
    case True
    with Cons.prems have "visit vs (Q, explored, r) = (Q', explored', r')"
      by (simp add: explored_index_def)
    from Cons.IH [OF this Cons.prems(2)] True show ?thesis
      by (auto simp: marked_def)
  next
    case False
    let ?e = "explored(v \<mapsto> True)"
    from False Cons.prems have step: "visit vs (Q @ [v], ?e, r + 1) = (Q', explored', r')"
      by (cases "explored v") (auto simp: explored_index_def)
    have m: "marked ?e = insert v (marked explored)"
      by (auto simp: marked_def)
    from False have notin: "v \<notin> marked explored"
      by (simp add: marked_def)
    from Cons.prems(2) m have fin: "finite (marked ?e)" by simp
    from notin Cons.prems(2) m have c: "int (card (marked ?e)) = int (card (marked explored)) + 1"
      by simp
    note ih = Cons.IH [OF step fin]
    from ih have "set Q' = set (Q @ [v]) \<union> (set vs - marked ?e)" by (rule conjunct1)
    moreover from ih have "marked explored' = marked ?e \<union> set vs" by blast
    moreover from ih have "r' = r + 1 + int (card (marked explored')) - int (card (marked ?e))"
      by blast
    ultimately show ?thesis
      using notin Cons.prems(2) by (auto simp: m)
  qed
qed

lemma reach_closed:
  assumes "S \<subseteq> E" and "\<forall>u \<in> E. edges A `` {u} \<subseteq> E"
  shows "reach A S \<subseteq> E"
proof
  fix v assume "v \<in> reach A S"
  then obtain s where "s \<in> S" and "(s, v) \<in> (edges A)\<^sup>*"
    by (auto simp: reach_def)
  from this(2) this(1) assms show "v \<in> E"
    by (induction rule: rtrancl_induct) auto
qed

lemma reach_step: "u \<in> reach A S \<Longrightarrow> (u, v) \<in> edges A \<Longrightarrow> v \<in> reach A S"
  by (auto simp: reach_def intro: rtrancl_into_rtrancl)

lemma bfs_inv_step:
  assumes inv: "bfs_inv A0 S A (u # Q) explored r"
    and idx: "cascade_index A u = (vs, A')"
    and vis: "visit vs (Q, explored, r) = (Q', explored', r')"
  shows "bfs_inv A0 S A' Q' explored' r'"
proof -
  let ?E = "marked explored" and ?E' = "marked explored'"
  from inv have fin: "finite ?E" and r: "r = int (card ?E)"
    and Q: "set (u # Q) \<subseteq> ?E" and S: "S \<subseteq> ?E" and sound: "?E \<subseteq> reach A0 S"
    and closed: "\<forall>w \<in> ?E - set (u # Q). edges A0 `` {w} \<subseteq> ?E"
    and ed: "edges A = edges A0"
    and d1: "?E \<subseteq> dom (map_of A) \<union> set (u # Q)"
    and d2: "dom (map_of A) \<subseteq> dom (map_of A0) \<union> ?E"
    and d3: "\<forall>k. map_of A k = map_of A0 k \<or> (map_of A0 k = None \<and> map_of A k = Some [])"
    by (simp_all add: bfs_inv_def)
  from cascade_index_edges [OF idx] ed
  have ed': "edges A' = edges A0" and vs: "set vs = edges A0 `` {u}" by simp_all
  from visit_effect [OF vis fin]
  have Q': "set Q' = set Q \<union> (set vs - ?E)" and E': "?E' = ?E \<union> set vs"
    and r': "r' = r + int (card ?E') - int (card ?E)" by simp_all
  from Q have uE: "u \<in> ?E" by simp
  have "finite ?E'" using fin E' by simp
  moreover have "r' = int (card ?E')" using r r' by simp
  moreover have "set Q' \<subseteq> ?E'" using Q Q' E' by auto
  moreover have "S \<subseteq> ?E'" using S E' by auto
  moreover have "?E' \<subseteq> reach A0 S"
  proof -
    from uE sound have "u \<in> reach A0 S" by blast
    then have "set vs \<subseteq> reach A0 S" unfolding vs by (auto intro: reach_step)
    with sound E' show ?thesis by simp
  qed
  moreover have "\<forall>w \<in> ?E' - set Q'. edges A0 `` {w} \<subseteq> ?E'"
  proof
    fix w assume w: "w \<in> ?E' - set Q'"
    with E' Q' have wE: "w \<in> ?E" and wQ: "w \<notin> set Q" by auto
    show "edges A0 `` {w} \<subseteq> ?E'"
    proof (cases "w = u")
      case True
      with vs E' show ?thesis by auto
    next
      case False
      with wE wQ closed have "edges A0 `` {w} \<subseteq> ?E" by simp
      with E' show ?thesis by auto
    qed
  qed
  moreover have du: "dom (map_of A') = insert u (dom (map_of A))"
    using cascade_index_cases [OF idx] by auto
  have "?E' \<subseteq> dom (map_of A') \<union> set Q'"
    using d1 E' Q' du by auto
  moreover have "dom (map_of A') \<subseteq> dom (map_of A0) \<union> ?E'"
    using d2 du uE E' by auto
  moreover have "\<forall>k. map_of A' k = map_of A0 k \<or> (map_of A0 k = None \<and> map_of A' k = Some [])"
  proof
    fix k
    from cascade_index_cases [OF idx] d3 [rule_format, of k] d3 [rule_format, of u]
    show "map_of A' k = map_of A0 k \<or> (map_of A0 k = None \<and> map_of A' k = Some [])"
      by (cases "k = u") auto
  qed
  ultimately show ?thesis using ed' by (simp add: bfs_inv_def)
qed

lemma bfs_loop_correct:
  assumes "bfs_inv A0 S A Q explored r"
    and "bfs_loop A Q explored r = (r', A')"
  shows "r' = int (card (reach A0 S)) \<and>
         (\<forall>k. map_of A' k =
            (if k \<in> dom (map_of A0) then map_of A0 k
             else if k \<in> reach A0 S then Some [] else None))"
  using assms
proof (induction A Q explored r rule: bfs_loop.induct)
  case (1 A explored r)
  let ?E = "marked explored"
  from "1.prems" have inv: "bfs_inv A0 S A [] explored r" and eq: "r' = r" "A' = A" by simp_all
  from inv have "S \<subseteq> ?E" "\<forall>u \<in> ?E. edges A0 `` {u} \<subseteq> ?E" "?E \<subseteq> reach A0 S"
    by (simp_all add: bfs_inv_def)
  with reach_closed [of S ?E A0] have E: "?E = reach A0 S" by blast
  from inv have r: "r = int (card ?E)"
    and d1: "?E \<subseteq> dom (map_of A)"
    and d2: "dom (map_of A) \<subseteq> dom (map_of A0) \<union> ?E"
    and d3: "\<forall>k. map_of A k = map_of A0 k \<or> (map_of A0 k = None \<and> map_of A k = Some [])"
    by (simp_all add: bfs_inv_def)
  have "map_of A k =
          (if k \<in> dom (map_of A0) then map_of A0 k
           else if k \<in> reach A0 S then Some [] else None)" for k
    using d1 d2 d3 [rule_format, of k] unfolding E by (auto simp: domIff)
  with r E eq show ?case by simp
next
  case (2 A u Q explored r)
  obtain vs A1 where idx: "cascade_index A u = (vs, A1)" by (cases "cascade_index A u")
  obtain Q1 explored1 r1 where vis: "visit vs (Q, explored, r) = (Q1, explored1, r1)"
    by (cases "visit vs (Q, explored, r)")
  from "2.prems"(2) idx vis have run: "bfs_loop A1 Q1 explored1 r1 = (r', A')" by simp
  from bfs_inv_step [OF "2.prems"(1) idx vis] have inv: "bfs_inv A0 S A1 Q1 explored1 r1" .
  from "2.IH" [OF idx [symmetric] vis [symmetric] refl inv run] show ?case .
qed

lemma reachable_from_correct:
  assumes "finite S" and "reachable_from A S = (r, A')"
  shows "r = int (card (reach A S))"
    and "map_of A' k =
            (if k \<in> dom (map_of A) then map_of A k
             else if k \<in> reach A S then Some [] else None)"
proof -
  obtain Q explored r0 where seed: "seed_loop (sorted_list_of_set S) ([], Map.empty, 0) = (Q, explored, r0)"
    by (cases "seed_loop (sorted_list_of_set S) ([], Map.empty, 0)")
  with assms(2) have run: "bfs_loop A Q explored r0 = (r, A')"
    by (simp add: reachable_from_def)
  from seed_loop_effect [OF seed] assms(1)
  have Q: "set Q = S" and E: "marked explored = S" and r0: "r0 = int (card S)"
    by (simp_all add: marked_def)
  have "bfs_inv A S A Q explored r0"
    using Q E r0 assms(1) seeds_in_reach [of S A] by (auto simp: bfs_inv_def)
  from bfs_loop_correct [OF this run]
  show "r = int (card (reach A S))"
    and "map_of A' k =
            (if k \<in> dom (map_of A) then map_of A k
             else if k \<in> reach A S then Some [] else None)"
    by simp_all
qed

lemma reach_empty [simp]: "reach A {} = {}"
  by (simp add: reach_def)

lemma reach_absent_seed:
  assumes "map_of A s = None"
  shows "reach A {s} = {s}"
proof -
  have "(s, v) \<in> (edges A)\<^sup>* \<Longrightarrow> v = s" for v
    by (induction rule: rtrancl_induct) (use assms in \<open>auto simp: edges_def\<close>)
  then show ?thesis by (auto simp: reach_def)
qed

lemma reachable_from_count:
  assumes "finite S"
  shows "fst (reachable_from A S) = int (card (reach A S))"
  using reachable_from_correct(1) [OF assms, of A] by (cases "reachable_from A S") simp

lemma card_seeds_le_reach:
  assumes "finite S"
  shows "card S \<le> card (reach A S)"
  by (rule card_mono [OF finite_reach [OF assms] seeds_in_reach])

lemma reach_bound:
  assumes "finite S"
  shows "card (reach A S) \<le> card (S \<union> targets A)"
  by (rule card_mono [OF _ reach_subset]) (use assms in simp)

lemma influence_loop_Fin: "influence_loop cascades S (Fin a) = Fin (rounded_sum cascades S a)"
  by (induction cascades arbitrary: a) (simp_all add: dbl_of_int_def split: prod.splits)

lemma reachable_from_mono:
  assumes "S \<subseteq> T" and "finite T"
  shows "fst (reachable_from A S) \<le> fst (reachable_from A T)"
proof -
  from assms have "finite S" by (rule finite_subset)
  with assms show ?thesis
    by (simp add: reachable_from_count card_mono [OF finite_reach reach_mono])
qed

lemma reachable_from_nonneg: "finite S \<Longrightarrow> 0 \<le> fst (reachable_from A S)"
  by (simp add: reachable_from_count)

lemma rounded_sum_mono:
  assumes "S \<subseteq> T" and "finite T" and "a \<le> b"
  shows "rounded_sum cascades S a \<le> rounded_sum cascades T b"
  using assms(3)
proof (induction cascades arbitrary: a b)
  case Nil
  then show ?case by simp
next
  case (Cons A rest)
  have "(of_int (fst (reachable_from A S)) :: rat) \<le> of_int (fst (reachable_from A T))"
    using reachable_from_mono [OF assms(1,2), of A] by (simp only: of_int_le_iff)
  then have "fl (of_int (fst (reachable_from A S))) \<le> fl (of_int (fst (reachable_from A T)))"
    by (rule fl_mono)
  with Cons.prems
  have "a + fl (of_int (fst (reachable_from A S))) \<le> b + fl (of_int (fst (reachable_from A T)))"
    by (rule add_mono)
  then have "fl (a + fl (of_int (fst (reachable_from A S)))) \<le>
        fl (b + fl (of_int (fst (reachable_from A T))))"
    by (rule fl_mono)
  from Cons.IH [OF this] show ?case by simp
qed

lemma rounded_sum_exact:
  assumes "finite S" and "0 \<le> k" and "k + total_reach cascades S \<le> 2 ^ 53"
  shows "rounded_sum cascades S (of_int k) = of_int (k + total_reach cascades S)"
  using assms(2,3)
proof (induction cascades arbitrary: k)
  case Nil
  then show ?case by (simp add: total_reach_def)
next
  case (Cons A rest)
  let ?r = "fst (reachable_from A S)"
  have r: "0 \<le> ?r" by (rule reachable_from_nonneg [OF assms(1)])
  have t: "0 \<le> total_reach rest S"
    unfolding total_reach_def by (rule sum_list_nonneg) (auto simp: reachable_from_nonneg [OF assms(1)])
  have split: "total_reach (A # rest) S = ?r + total_reach rest S"
    by (simp add: total_reach_def)
  from Cons.prems r t split have b1: "\<bar>?r\<bar> \<le> 2 ^ 53" and b2: "\<bar>k + ?r\<bar> \<le> 2 ^ 53" by simp_all
  have "fl (of_int k + fl (of_int ?r)) = fl (of_int (k + ?r))"
    by (simp add: fl_of_int [OF b1])
  also have "\<dots> = of_int (k + ?r)"
    by (rule fl_of_int [OF b2])
  finally have step: "fl (of_int k + fl (of_int ?r)) = of_int (k + ?r)" .
  have "rounded_sum rest S (of_int (k + ?r)) = of_int (k + ?r + total_reach rest S)"
    by (rule Cons.IH) (use Cons.prems r split in simp_all)
  then show ?case by (simp add: step split)
qed

lemma fl_of_nat_pos: "0 < n \<Longrightarrow> 0 < fl (of_nat n)"
  by (rule fl_pos_gt) simp

lemma calculate_influence_nonempty:
  assumes "cascades \<noteq> []"
  shows "fst (calculate_influence cascades S) =
           Fin (fl (rounded_sum cascades S 0 / fl (of_nat (length cascades))))"
proof -
  from assms have "0 < fl (of_nat (length cascades) :: rat)"
    by (intro fl_of_nat_pos) simp
  then show ?thesis
    by (simp add: calculate_influence_def Let_def influence_loop_Fin dbl_of_nat_def)
qed

lemma calculate_influence_mono:
  assumes "S \<subseteq> T" and "finite T" and "cascades \<noteq> []"
  shows "dbl_le (fst (calculate_influence cascades S)) (fst (calculate_influence cascades T))"
proof -
  let ?n = "fl (of_nat (length cascades)) :: rat"
  from assms(3) have n: "0 < ?n" by (intro fl_of_nat_pos) simp
  from rounded_sum_mono [OF assms(1,2), of 0 0 cascades]
  have "rounded_sum cascades S 0 / ?n \<le> rounded_sum cascades T 0 / ?n"
    using n by (simp add: divide_right_mono)
  then have "fl (rounded_sum cascades S 0 / ?n) \<le> fl (rounded_sum cascades T 0 / ?n)"
    by (rule fl_mono)
  then show ?thesis
    by (simp add: calculate_influence_nonempty [OF assms(3)])
qed

lemma calculate_influence_exact_sum:
  assumes "cascades \<noteq> []" and "finite S" and "total_reach cascades S \<le> 2 ^ 53"
  shows "fst (calculate_influence cascades S) =
           dbl_div (dbl_of_int (total_reach cascades S)) (dbl_of_nat (length cascades))"
proof -
  let ?t = "total_reach cascades S"
  have t: "0 \<le> ?t"
    unfolding total_reach_def
    by (rule sum_list_nonneg) (auto simp: reachable_from_nonneg [OF assms(2)])
  from rounded_sum_exact [OF assms(2), of 0 cascades] assms(3)
  have s: "rounded_sum cascades S 0 = of_int ?t" by simp
  from t assms(3) have "fl (of_int ?t) = of_int ?t"
    by (intro fl_of_int) simp
  moreover from assms(1) have "fl (of_nat (length cascades) :: rat) \<noteq> 0"
    using fl_of_nat_pos [of "length cascades"] by simp
  ultimately show ?thesis
    by (simp add: calculate_influence_nonempty [OF assms(1)] s dbl_of_int_def dbl_of_nat_def)
qed

lemma fl_two [simp]: "fl 2 = 2"
  using fl_of_int [of 2] by simp

section \<open>One round of the greedy loop\<close>

lemma influence_Fin:
  "cascades \<noteq> [] \<Longrightarrow> fst (calculate_influence cascades T) = Fin (influence_rat cascades T)"
  by (simp add: calculate_influence_nonempty influence_rat_def)

lemma gain_Fin:
  "cascades \<noteq> [] \<Longrightarrow> gain cascades S (Fin p) v = Fin (gain_rat cascades S p v)"
  by (simp add: gain_def gain_rat_def influence_Fin dbl_sub_def)

lemma scan_step_in:
  "u \<in> S \<Longrightarrow> scan (u # us) cascades S prev b = scan us cascades S prev b"
  by (cases b) simp

lemma scan_step_out:
  assumes "u \<notin> S" and "cascades \<noteq> []"
  shows "scan (u # us) cascades S (Fin p) (Fin m, mi, mn) =
           (if m < gain_rat cascades S p u
            then scan us cascades S (Fin p)
                   (Fin (gain_rat cascades S p u), Fin (influence_rat cascades (insert u S)), u)
            else scan us cascades S (Fin p) (Fin m, mi, mn))"
  using assms
  by (simp add: Let_def influence_Fin dbl_sub_def dbl_gt_def gain_rat_def)

lemma scan_inv_Fin:
  assumes "scan_inv cascades S p P b"
  obtains m mi mn where "b = (Fin m, mi, mn)"
  using assms by (auto simp: scan_inv_def)

lemma best_after_update:
  fixes g :: "int \<Rightarrow> rat"
  assumes "\<forall>v \<in> P - S. g v \<le> m" and "m < g u"
  shows "\<forall>v \<in> insert u P - S. g v \<le> g u"
    and "\<forall>v \<in> insert u P - S. v < u \<longrightarrow> g v < g u"
proof -
  have *: "g v < g u" if "v \<in> P - S" for v
  proof -
    from assms(1) that have "g v \<le> m" by blast
    with assms(2) show ?thesis by linarith
  qed
  show "\<forall>v \<in> insert u P - S. g v \<le> g u"
  proof
    fix v assume "v \<in> insert u P - S"
    then have "v = u \<or> v \<in> P - S" by auto
    then show "g v \<le> g u" using * by (auto intro: less_imp_le)
  qed
  show "\<forall>v \<in> insert u P - S. v < u \<longrightarrow> g v < g u"
  proof (intro ballI impI)
    fix v assume "v \<in> insert u P - S" and "v < u"
    then have "v \<in> P - S" by auto
    then show "g v < g u" by (rule *)
  qed
qed

lemma best_after_keep:
  fixes g :: "int \<Rightarrow> rat"
  assumes "\<forall>v \<in> P - S. g v \<le> m" and "\<not> m < g u"
  shows "\<forall>v \<in> insert u P - S. g v \<le> m"
proof
  fix v assume "v \<in> insert u P - S"
  then have "v = u \<or> v \<in> P - S" by auto
  then show "g v \<le> m"
  proof
    assume "v = u"
    with assms(2) show ?thesis by simp
  next
    assume "v \<in> P - S"
    with assms(1) show ?thesis by blast
  qed
qed

lemma earlier_after_keep:
  fixes g :: "int \<Rightarrow> rat"
  assumes "\<forall>v \<in> P - S. v < w \<longrightarrow> g v < g w" and "w \<in> P" and "\<forall>q \<in> P. q < u"
  shows "\<forall>v \<in> insert u P - S. v < w \<longrightarrow> g v < g w"
proof (intro ballI impI)
  fix v assume v: "v \<in> insert u P - S" and lt: "v < w"
  from assms(2,3) have "w < u" by blast
  with lt have "v \<noteq> u" by simp
  with v have "v \<in> P - S" by auto
  with assms(1) lt show "g v < g w" by blast
qed

lemma scan_preserves_inv:
  assumes ne: "cascades \<noteq> []"
  shows "scan_inv cascades S p P b \<Longrightarrow> sorted us \<Longrightarrow> distinct us \<Longrightarrow>
         (\<forall>q \<in> P. \<forall>u \<in> set us. q < u) \<Longrightarrow>
         scan_inv cascades S p (P \<union> set us) (scan us cascades S (Fin p) b)"
proof (induction us arbitrary: P b)
  case Nil
  then show ?case by simp
next
  case (Cons u us)
  let ?g = "gain_rat cascades S p"
  from Cons.prems(2,3) have sorted: "sorted us" and dist: "distinct us"
    and above: "\<forall>w \<in> set us. u < w"
    by (auto simp: less_le)
  from Cons.prems(4) above have later: "\<forall>q \<in> insert u P. \<forall>w \<in> set us. q < w"
    by auto
  from Cons.prems(4) have before: "\<forall>q \<in> P. q < u" by simp
  have "scan_inv cascades S p (insert u P) (scan [u] cascades S (Fin p) b)"
  proof (cases "u \<in> S")
    case True
    with Cons.prems(1) show ?thesis
      by (auto simp: scan_step_in scan_inv_def)
  next
    case False
    from Cons.prems(1) consider
      (none) "b = (Fin (- 1), Fin (- 1), - 1)" "\<forall>v \<in> P - S. ?g v \<le> - 1"
      | (some) w where "w \<in> P - S"
          "b = (Fin (?g w), Fin (influence_rat cascades (insert w S)), w)"
          "\<forall>v \<in> P - S. ?g v \<le> ?g w" "\<forall>v \<in> P - S. v < w \<longrightarrow> ?g v < ?g w"
      by (auto simp: scan_inv_def)
    then show ?thesis
    proof cases
      case none
      show ?thesis
      proof (cases "- 1 < ?g u")
        case True
        with none False have "scan [u] cascades S (Fin p) b =
            (Fin (?g u), Fin (influence_rat cascades (insert u S)), u)"
          by (simp add: scan_step_out [OF False ne] del: scan.simps(2))
        moreover note best_after_update [OF none(2) True]
        ultimately show ?thesis
          using False unfolding scan_inv_def by blast
      next
        case no: False
        with none False have "scan [u] cascades S (Fin p) b = b"
          by (simp add: scan_step_out [OF False ne] del: scan.simps(2))
        moreover note best_after_keep [OF none(2) no]
        ultimately show ?thesis
          using none(1) unfolding scan_inv_def by simp
      qed
    next
      case some
      show ?thesis
      proof (cases "?g w < ?g u")
        case True
        with some(2) have "scan [u] cascades S (Fin p) b =
            (Fin (?g u), Fin (influence_rat cascades (insert u S)), u)"
          by (simp add: scan_step_out [OF False ne] del: scan.simps(2))
        moreover note best_after_update [OF some(3) True]
        ultimately show ?thesis
          using False unfolding scan_inv_def by blast
      next
        case no: False
        with some(2) have "scan [u] cascades S (Fin p) b = b"
          by (simp add: scan_step_out [OF False ne] del: scan.simps(2))
        moreover note best_after_keep [OF some(3) no]
        moreover from some(1) have "w \<in> P" by simp
        note earlier_after_keep [OF some(4) this before]
        ultimately show ?thesis
          using some(1,2) unfolding scan_inv_def by blast
      qed
    qed
  qed
  moreover have "scan (u # us) cascades S (Fin p) b =
                 scan us cascades S (Fin p) (scan [u] cascades S (Fin p) b)"
  proof (cases "u \<in> S")
    case True
    then show ?thesis by (simp add: scan_step_in)
  next
    case False
    from Cons.prems(1) obtain m mi mn where b: "b = (Fin m, mi, mn)"
      by (rule scan_inv_Fin)
    show ?thesis
      unfolding b by (simp add: scan_step_out [OF False ne] del: scan.simps(2))
  qed
  ultimately show ?case
    using Cons.IH [OF _ sorted dist later] by simp
qed

lemma fl_nonneg: "0 \<le> x \<Longrightarrow> 0 \<le> fl x"
  using fl_mono [of 0 x] by simp

lemma fl_sub_strict:
  fixes xu xv X p :: rat
  assumes X: "0 < X" and xu: "0 \<le> xu" and gap: "xu + X \<le> xv" and top: "xv \<le> 2 ^ 50 * X"
    and p: "0 \<le> p" "p \<le> fl xu"
  shows "fl (fl xu - p) < fl (fl xv - p)"
proof -
  define a b where "a = fl xu" and "b = fl xv"
  define fa fb where "fa = fl (a - p)" and "fb = fl (b - p)"
  from X gap have le: "xu \<le> xv" by simp
  then have ab: "a \<le> b" unfolding a_def b_def by (rule fl_mono)
  from p have A: "0 \<le> a - p" unfolding a_def by simp
  with ab have B: "0 \<le> b - p" by simp
  from xu le have xv: "0 \<le> xv" by simp
  have n53: "(2::rat) ^ 53 = 9007199254740992" and n50: "(2::rat) ^ 50 = 1125899906842624"
    by simp_all
  note err = fl_error [unfolded n53]
  from err [of xu] xu have ea: "a \<le> xu + xu / 9007199254740992"
    unfolding a_def by linarith
  from err [of xv] xv have eb1: "xv - xv / 9007199254740992 \<le> b"
    and eb2: "b \<le> xv + xv / 9007199254740992"
    unfolding b_def by linarith+
  define A' B' where "A' = a - p" and "B' = b - p"
  from A B have A': "0 \<le> A'" and B': "0 \<le> B'" by (simp_all add: A'_def B'_def)
  from err [of A'] A' have "fl A' \<le> A' + A' / 9007199254740992" by linarith
  then have efa: "fa \<le> a - p + (a / 9007199254740992 - p / 9007199254740992)"
    unfolding fa_def A'_def diff_divide_distrib .
  from err [of B'] B' have "B' - B' / 9007199254740992 \<le> fl B'" by linarith
  then have efb: "b - p - (b / 9007199254740992 - p / 9007199254740992) \<le> fb"
    unfolding fb_def B'_def diff_divide_distrib .
  from top have top': "xv \<le> 1125899906842624 * X" unfolding n50 .
  from X xu xv gap top' p(1) ea eb1 eb2 efa efb have "fa < fb"
    by linarith
  then show ?thesis
    unfolding fa_def fb_def a_def b_def .
qed

lemma influence_rat_mono:
  assumes "S \<subseteq> T" and "finite T" and "cascades \<noteq> []"
  shows "influence_rat cascades S \<le> influence_rat cascades T"
  using calculate_influence_mono [OF assms] by (simp add: influence_Fin [OF assms(3)])

lemma rounded_sum_nonneg: "0 \<le> a \<Longrightarrow> finite S \<Longrightarrow> 0 \<le> rounded_sum cascades S a"
proof (induction cascades arbitrary: a)
  case Nil
  then show ?case by simp
next
  case (Cons A rest)
  have "0 \<le> fl (of_int (fst (reachable_from A S)))"
    by (rule fl_nonneg) (simp add: reachable_from_nonneg [OF Cons.prems(2)])
  with Cons.prems(1) have "0 \<le> fl (a + fl (of_int (fst (reachable_from A S))))"
    by (intro fl_nonneg) simp
  from Cons.IH [OF this Cons.prems(2)] show ?case by simp
qed

lemma influence_rat_nonneg: "finite S \<Longrightarrow> 0 \<le> influence_rat cascades S"
  unfolding influence_rat_def
  by (intro fl_nonneg divide_nonneg_nonneg rounded_sum_nonneg) simp_all

lemma rounded_sum_empty: "rounded_sum cascades {} 0 = 0"
proof (induction cascades)
  case Nil
  show ?case by simp
next
  case (Cons A rest)
  have "fst (reachable_from A {}) = 0"
    using reachable_from_count [of "{}" A] by simp
  with Cons show ?case by simp
qed

lemma influence_rat_empty: "influence_rat cascades {} = 0"
  by (simp add: influence_rat_def rounded_sum_empty)

lemma gain_rat_nonneg:
  assumes "finite S" and "cascades \<noteq> []"
  shows "0 \<le> gain_rat cascades S (influence_rat cascades S) v"
proof -
  have "influence_rat cascades S \<le> influence_rat cascades (insert v S)"
    by (rule influence_rat_mono) (use assms in auto)
  then show ?thesis
    unfolding gain_rat_def by (intro fl_nonneg) simp
qed

lemma gain_less_influence_less:
  assumes "gain_rat cascades S p v < gain_rat cascades S p u"
  shows "influence_rat cascades (insert v S) < influence_rat cascades (insert u S)"
proof (rule ccontr)
  assume "\<not> ?thesis"
  then have "influence_rat cascades (insert u S) - p \<le> influence_rat cascades (insert v S) - p"
    by simp
  from fl_mono [OF this] assms show False
    by (simp add: gain_rat_def)
qed

text \<open>One round from a state whose second component is the influence of the first.\<close>

lemma greedy_round_selects:
  assumes V: "finite V" and ne: "cascades \<noteq> []" and S: "finite S" and el: "V - S \<noteq> {}"
  shows "\<exists>u \<in> V - S.
           greedy_round V cascades (S, Fin (influence_rat cascades S)) =
             (insert u S, Fin (influence_rat cascades (insert u S))) \<and>
           (\<forall>v \<in> V - S. gain_rat cascades S (influence_rat cascades S) v \<le>
                          gain_rat cascades S (influence_rat cascades S) u) \<and>
           (\<forall>v \<in> V - S. v < u \<longrightarrow>
              gain_rat cascades S (influence_rat cascades S) v <
              gain_rat cascades S (influence_rat cascades S) u)"
proof -
  let ?p = "influence_rat cascades S"
  let ?g = "gain_rat cascades S ?p"
  let ?b = "scan (sorted_list_of_set V) cascades S (Fin ?p) (Fin (- 1), Fin (- 1), - 1)"
  have "scan_inv cascades S ?p {} (Fin (- 1), Fin (- 1), - 1)"
    by (simp add: scan_inv_def)
  from scan_preserves_inv [OF ne this, of "sorted_list_of_set V"] V
  have inv: "scan_inv cascades S ?p V ?b" by simp
  from el obtain w where w: "w \<in> V - S" by blast
  have "\<not> (\<forall>v \<in> V - S. ?g v \<le> - 1)"
  proof
    assume "\<forall>v \<in> V - S. ?g v \<le> - 1"
    with w have "?g w \<le> - 1" by blast
    with gain_rat_nonneg [OF S ne, of w] show False by linarith
  qed
  with inv obtain u where u: "u \<in> V - S"
    and b: "?b = (Fin (?g u), Fin (influence_rat cascades (insert u S)), u)"
    and mx: "\<forall>v \<in> V - S. ?g v \<le> ?g u" and first: "\<forall>v \<in> V - S. v < u \<longrightarrow> ?g v < ?g u"
    unfolding scan_inv_def by blast
  from b have "greedy_round V cascades (S, Fin ?p) =
                 (insert u S, Fin (influence_rat cascades (insert u S)))"
    by simp
  with u mx first show ?thesis by blast
qed

lemma greedy_loop_funpow:
  "greedy_loop iter (iter + int n) V cascades st = (greedy_round V cascades ^^ n) st"
proof (induction n arbitrary: iter st)
  case 0
  show ?case by (subst greedy_loop.simps) simp
next
  case (Suc n)
  have "greedy_loop iter (iter + int (Suc n)) V cascades st =
        greedy_loop (iter + 1) (iter + 1 + int n) V cascades (greedy_round V cascades st)"
    by (subst greedy_loop.simps) (simp add: add.assoc)
  also have "\<dots> = (greedy_round V cascades ^^ n) (greedy_round V cascades st)"
    by (rule Suc.IH)
  finally show ?case by (simp add: funpow_swap1)
qed

lemma greedy_funpow: "greedy V cascades (int n) = (greedy_round V cascades ^^ n) ({}, Fin 0)"
  using greedy_loop_funpow [of 0 n V cascades] by (simp add: greedy_def)

lemma greedy_Suc:
  "greedy V cascades (int n + 1) = greedy_round V cascades (greedy V cascades (int n))"
proof -
  have e: "int n + 1 = int (Suc n)" by simp
  show ?thesis unfolding e greedy_funpow by simp
qed

lemma greedy_state:
  assumes V: "finite V" and ne: "cascades \<noteq> []"
  shows "n \<le> card V \<Longrightarrow>
         \<exists>S. greedy V cascades (int n) = (S, Fin (influence_rat cascades S)) \<and>
             S \<subseteq> V \<and> card S = n"
proof (induction n)
  case 0
  show ?case by (simp add: greedy_def influence_rat_empty)
next
  case (Suc n)
  then obtain S where st: "greedy V cascades (int n) = (S, Fin (influence_rat cascades S))"
    and sub: "S \<subseteq> V" and card: "card S = n" by auto
  from sub V have fin: "finite S" by (rule finite_subset)
  from Suc.prems card have "card S < card V" by simp
  with sub have "V - S \<noteq> {}" by auto
  from greedy_round_selects [OF V ne fin this] obtain u where u: "u \<in> V - S"
    and r: "greedy_round V cascades (S, Fin (influence_rat cascades S)) =
              (insert u S, Fin (influence_rat cascades (insert u S)))"
    by blast
  have "greedy V cascades (int (Suc n)) = (insert u S, Fin (influence_rat cascades (insert u S)))"
    using greedy_Suc [of V cascades n] st r by (simp add: add.commute)
  moreover from u sub have "insert u S \<subseteq> V" by auto
  moreover from u fin card have "card (insert u S) = Suc n" by simp
  ultimately show ?case by blast
qed

lemma sum_list_le_length_times:
  fixes f :: "'a \<Rightarrow> int"
  assumes "\<forall>x \<in> set xs. f x \<le> c"
  shows "sum_list (map f xs) \<le> int (length xs) * c"
  using assms by (induction xs) (auto simp: algebra_simps)

lemma total_reach_nonneg: "finite T \<Longrightarrow> 0 \<le> total_reach cascades T"
  unfolding total_reach_def
  by (rule sum_list_nonneg) (auto simp: reachable_from_nonneg)

lemma total_reach_mono:
  assumes "S \<subseteq> T" and "finite T"
  shows "total_reach cascades S \<le> total_reach cascades T"
  unfolding total_reach_def
  by (rule sum_list_mono) (rule reachable_from_mono [OF assms])

lemma total_reach_bound:
  assumes "finite V" and "T \<subseteq> V"
  shows "total_reach cascades T \<le>
           int (length cascades) * int (card (V \<union> (\<Union>A \<in> set cascades. targets A)))"
proof -
  let ?N = "V \<union> (\<Union>A \<in> set cascades. targets A)"
  from assms have T: "finite T" by (simp add: finite_subset)
  from assms(1) have N: "finite ?N" by simp
  have "fst (reachable_from A T) \<le> int (card ?N)" if "A \<in> set cascades" for A
  proof -
    have "reach A T \<subseteq> ?N"
      using reach_subset [of A T] assms(2) that by blast
    from card_mono [OF N this] show ?thesis
      by (simp add: reachable_from_count [OF T])
  qed
  then show ?thesis
    unfolding total_reach_def by (intro sum_list_le_length_times) simp
qed

lemma influence_rat_exact:
  assumes "finite T" and "total_reach cascades T \<le> 2 ^ 50" and "int (length cascades) \<le> 2 ^ 50"
  shows "influence_rat cascades T =
           fl (of_int (total_reach cascades T) / of_int (int (length cascades)))"
proof -
  from assms(2) have "0 + total_reach cascades T \<le> 2 ^ 53" by simp
  from rounded_sum_exact [OF assms(1) _ this]
  have s: "rounded_sum cascades T 0 = of_int (total_reach cascades T)" by simp
  from assms(3) have "\<bar>int (length cascades)\<bar> \<le> 2 ^ 53" by simp
  from fl_of_int [OF this]
  have n: "fl (of_nat (length cascades)) = (of_int (int (length cascades)) :: rat)" by simp
  show ?thesis
    unfolding influence_rat_def s n ..
qed

lemma gain_rat_strict:
  assumes V: "finite V" and ne: "cascades \<noteq> []" and S: "S \<subseteq> V" and u: "u \<in> V" and v: "v \<in> V"
    and bound: "count_bound V cascades"
    and less: "influence_rat cascades (insert u S) < influence_rat cascades (insert v S)"
  shows "gain_rat cascades S (influence_rat cascades S) u <
         gain_rat cascades S (influence_rat cascades S) v"
proof -
  let ?N = "V \<union> (\<Union>A \<in> set cascades. targets A)"
  let ?n = "int (length cascades)"
  let ?tu = "total_reach cascades (insert u S)" and ?tv = "total_reach cascades (insert v S)"
  from V S have fS: "finite S" by (rule rev_finite_subset)
  from V have "finite ?N" by simp
  with u have "0 < card ?N" by (auto simp: card_gt_0_iff)
  then have c1: "1 \<le> int (card ?N)" by simp
  from ne have n1: "1 \<le> ?n" by (cases cascades) simp_all
  from bound have b: "?n * int (card ?N) \<le> 2 ^ 50" by (simp add: count_bound_def)
  from n1 c1 have "?n * 1 \<le> ?n * int (card ?N)" by (intro mult_left_mono) simp_all
  with b have nb: "?n \<le> 2 ^ 50" by simp
  from total_reach_bound [OF V, of "insert u S" cascades] u S b have tub: "?tu \<le> 2 ^ 50" by simp
  from total_reach_bound [OF V, of "insert v S" cascades] v S b have tvb: "?tv \<le> 2 ^ 50" by simp
  from fS have iu: "influence_rat cascades (insert u S) = fl (of_int ?tu / of_int ?n)"
    by (intro influence_rat_exact [OF _ tub nb]) simp
  from fS have iv: "influence_rat cascades (insert v S) = fl (of_int ?tv / of_int ?n)"
    by (intro influence_rat_exact [OF _ tvb nb]) simp
  from ne have npos: "0 < (of_int ?n :: rat)" by simp
  have "?tu < ?tv"
  proof (rule ccontr)
    assume "\<not> ?tu < ?tv"
    then have "(of_int ?tv :: rat) \<le> of_int ?tu" by simp
    with npos have "(of_int ?tv :: rat) / of_int ?n \<le> of_int ?tu / of_int ?n"
      by (simp add: divide_right_mono)
    from fl_mono [OF this] less show False
      unfolding iu iv by simp
  qed
  then have "?tu + 1 \<le> ?tv" by simp
  then have "(of_int (?tu + 1) :: rat) \<le> of_int ?tv" by (simp only: of_int_le_iff)
  then have "(of_int ?tu + 1 :: rat) \<le> of_int ?tv" by simp
  with npos have "(of_int ?tu + 1) / of_int ?n \<le> (of_int ?tv :: rat) / of_int ?n"
    by (simp add: divide_right_mono)
  then have gap: "of_int ?tu / of_int ?n + 1 / of_int ?n \<le> (of_int ?tv :: rat) / of_int ?n"
    by (simp add: add_divide_distrib)
  from tvb have "(of_int ?tv :: rat) \<le> of_int (2 ^ 50)" by (simp only: of_int_le_iff)
  with npos have top: "(of_int ?tv :: rat) / of_int ?n \<le> 2 ^ 50 * (1 / of_int ?n)"
    by (simp add: divide_right_mono)
  from fS have "0 \<le> ?tu" by (intro total_reach_nonneg) simp
  with npos have xu: "0 \<le> (of_int ?tu :: rat) / of_int ?n" by simp
  from npos have X: "0 < 1 / (of_int ?n :: rat)" by simp
  have p0: "0 \<le> influence_rat cascades S" by (rule influence_rat_nonneg [OF fS])
  have "influence_rat cascades S \<le> influence_rat cascades (insert u S)"
    by (rule influence_rat_mono) (use fS ne in auto)
  then have p1: "influence_rat cascades S \<le> fl (of_int ?tu / of_int ?n)" unfolding iu .
  from fl_sub_strict [OF X xu gap top p0 p1] show ?thesis
    unfolding gain_rat_def iu iv .
qed

lemma influence_trace_monotone_within_universe:
  assumes V: "finite V" and ne: "cascades \<noteq> []" and n: "Suc n \<le> card V"
  shows "dbl_le (snd (greedy V cascades (int n))) (snd (greedy V cascades (int (Suc n))))"
proof -
  from n have "n \<le> card V" by simp
  from greedy_state [OF V ne this] obtain S where
    st: "greedy V cascades (int n) = (S, Fin (influence_rat cascades S))"
    and sub: "S \<subseteq> V" and card: "card S = n" by blast
  from sub V have fin: "finite S" by (rule finite_subset)
  from n card have "card S < card V" by simp
  with sub have "V - S \<noteq> {}" by auto
  from greedy_round_selects [OF V ne fin this] obtain u where
    r: "greedy_round V cascades (S, Fin (influence_rat cascades S)) =
          (insert u S, Fin (influence_rat cascades (insert u S)))"
    by blast
  have "influence_rat cascades S \<le> influence_rat cascades (insert u S)"
    by (rule influence_rat_mono) (use fin ne in auto)
  with greedy_Suc [of V cascades n] st r show ?thesis
    by (simp add: add.commute)
qed

text \<open>
  A round that finds an eligible node, over at least one cascade: the node inserted
  into \<open>S\<close> is an eligible node \<open>u\<close> whose gain no eligible node exceeds; every eligible
  node with a smaller identifier has a strictly smaller gain and a strictly smaller
  influence, so the first node in ascending order wins the ties; and
  \<open>previous_influence\<close> becomes the influence of \<open>S \<union> {u}\<close>. Within \<open>count_bound\<close> no
  eligible node has a larger influence than \<open>u\<close>. For the single cascade with edges
  (1,2), (1,3), (2,4) and one round, node 1 is chosen and the influence is 4.
\<close>

lemma greedy_round_picks_first_maximum:
  assumes "finite V" and "cascades \<noteq> []" and "i < card V"
    and "greedy V cascades (int i) = (S, prev)"
  shows "(\<exists>u \<in> V - S.
            greedy V cascades (int i + 1) =
              (insert u S, fst (calculate_influence cascades (insert u S))) \<and>
            (\<forall>v \<in> V - S. \<not> dbl_gt (gain cascades S prev v) (gain cascades S prev u)) \<and>
            (\<forall>v \<in> V - S. v < u \<longrightarrow>
               dbl_less (gain cascades S prev v) (gain cascades S prev u) \<and>
               dbl_less (fst (calculate_influence cascades (insert v S)))
                        (fst (calculate_influence cascades (insert u S)))) \<and>
            (count_bound V cascades \<longrightarrow>
               (\<forall>v \<in> V - S.
                  dbl_le (fst (calculate_influence cascades (insert v S)))
                         (fst (calculate_influence cascades (insert u S)))))) \<and>
         greedy {1, 2, 3, 4} [[(1, [2, 3]), (2, [4])]] 1 = ({1}, Fin 4)"
proof -
  note V = assms(1) and ne = assms(2)
  let ?p = "influence_rat cascades S"
  let ?g = "gain_rat cascades S ?p"
  let ?f = "\<lambda>v. influence_rat cascades (insert v S)"
  from assms(3) have "i \<le> card V" by simp
  from greedy_state [OF V ne this] assms(4)
  have prev: "prev = Fin ?p" and sub: "S \<subseteq> V" and card: "card S = i" by auto
  from sub V have fin: "finite S" by (rule finite_subset)
  from assms(3) card have "card S < card V" by simp
  with sub have "V - S \<noteq> {}" by auto
  from greedy_round_selects [OF V ne fin this] obtain u where u: "u \<in> V - S"
    and r: "greedy_round V cascades (S, Fin ?p) = (insert u S, Fin (?f u))"
    and mx: "\<forall>v \<in> V - S. ?g v \<le> ?g u"
    and first: "\<forall>v \<in> V - S. v < u \<longrightarrow> ?g v < ?g u"
    by blast
  have step: "greedy V cascades (int i + 1) =
                (insert u S, fst (calculate_influence cascades (insert u S)))"
    using greedy_Suc [of V cascades i] assms(4) prev r by (simp add: influence_Fin [OF ne])
  have a: "\<forall>v \<in> V - S. \<not> dbl_gt (gain cascades S prev v) (gain cascades S prev u)"
    using mx by (simp add: prev gain_Fin [OF ne] dbl_gt_def not_less)
  have b: "\<forall>v \<in> V - S. v < u \<longrightarrow>
             dbl_less (gain cascades S prev v) (gain cascades S prev u) \<and>
             dbl_less (fst (calculate_influence cascades (insert v S)))
                      (fst (calculate_influence cascades (insert u S)))"
    using first gain_less_influence_less [of cascades S ?p _ u]
    by (simp add: prev gain_Fin [OF ne] influence_Fin [OF ne])
  have c: "\<forall>v \<in> V - S.
             dbl_le (fst (calculate_influence cascades (insert v S)))
                    (fst (calculate_influence cascades (insert u S)))"
    if bound: "count_bound V cascades"
  proof
    fix v assume v: "v \<in> V - S"
    have "\<not> ?f u < ?f v"
    proof
      assume "?f u < ?f v"
      from gain_rat_strict [OF V ne sub _ _ bound this] u v have "?g u < ?g v" by simp
      moreover from mx v have "?g v \<le> ?g u" by (rule bspec)
      ultimately show False by linarith
    qed
    then show "dbl_le (fst (calculate_influence cascades (insert v S)))
                      (fst (calculate_influence cascades (insert u S)))"
      by (simp add: influence_Fin [OF ne])
  qed
  have "greedy {1, 2, 3, 4} [[(1, [2, 3]), (2, [4])]] 1 = ({1}, Fin 4)"
    by code_simp
  with u step a b c show ?thesis by blast
qed

lemma greedy_round_picks_first_maximum_scenario:
  "finite {1 :: int, 2, 3, 4} \<and> ([[(1, [2, 3]), (2, [4])]] :: cascade list) \<noteq> [] \<and>
   0 < card {1 :: int, 2, 3, 4} \<and>
   greedy {1, 2, 3, 4} [[(1, [2, 3]), (2, [4])]] (int 0) = ({}, Fin 0) \<and>
   count_bound {1, 2, 3, 4} [[(1, [2, 3]), (2, [4])]] \<and>
   (\<exists>u \<in> {1, 2, 3, 4} - {}.
      greedy {1, 2, 3, 4} [[(1, [2, 3]), (2, [4])]] (int 0 + 1) =
        (insert u {}, fst (calculate_influence [[(1, [2, 3]), (2, [4])]] (insert u {}))) \<and>
      (\<forall>v \<in> {1, 2, 3, 4} - {}.
         dbl_le (fst (calculate_influence [[(1, [2, 3]), (2, [4])]] (insert v {})))
                (fst (calculate_influence [[(1, [2, 3]), (2, [4])]] (insert u {})))))"
proof -
  let ?V = "{1 :: int, 2, 3, 4}" and ?cs = "[[(1, [2, 3]), (2, [4])]] :: cascade list"
  have fin: "finite ?V" by simp
  have ne: "?cs \<noteq> []" by simp
  have lt: "0 < card ?V" by simp
  have st: "greedy ?V ?cs (int 0) = ({}, Fin 0)" by (simp add: greedy_def)
  have bound: "count_bound ?V ?cs" by code_simp
  from greedy_round_picks_first_maximum [OF fin ne lt st, THEN conjunct1] bound
  have "\<exists>u \<in> ?V - {}.
      greedy ?V ?cs (int 0 + 1) = (insert u {}, fst (calculate_influence ?cs (insert u {}))) \<and>
      (\<forall>v \<in> ?V - {}.
         dbl_le (fst (calculate_influence ?cs (insert v {})))
                (fst (calculate_influence ?cs (insert u {}))))"
    by blast
  with fin ne lt st bound show ?thesis by (intro conjI)
qed

section \<open>The counter within its range, and the copy in memory\<close>

lemma card_reach_eq: "finite S \<Longrightarrow> card (reach A S) = nat (fst (reachable_from A S))"
  by (simp add: reachable_from_count)

lemma reachable_from_ref_copy:
  "reachable_from_ref (mem @ [A]) (length mem) S =
     (fst (reachable_from A S), mem @ [snd (reachable_from A S)])"
  by (simp add: reachable_from_ref_def split: prod.splits)

lemma influence_loop_mem_eq:
  "\<forall>i \<in> set is. i < length mem \<Longrightarrow>
   influence_loop_mem is mem S influence =
     (influence_loop (map ((!) mem) is) S influence, mem)"
proof (induction "is" arbitrary: influence)
  case Nil
  show ?case by simp
next
  case (Cons i rest)
  from Cons.prems have rest: "\<forall>j \<in> set rest. j < length mem" by simp
  show ?case
    by (simp add: Let_def reachable_from_ref_copy Cons.IH [OF rest] split: prod.splits)
qed

lemma calculate_influence_mem_eq:
  "calculate_influence_mem cascades S = calculate_influence cascades S"
proof -
  have "influence_loop_mem [0..<length cascades] cascades S (Fin 0) =
          (influence_loop (map ((!) cascades) [0..<length cascades]) S (Fin 0), cascades)"
    by (rule influence_loop_mem_eq) simp
  then show ?thesis
    by (simp add: calculate_influence_mem_def calculate_influence_def Let_def map_nth)
qed

section \<open>Claims about \<open>reachable_from\<close>\<close>

text \<open>
  C4. For every cascade \<open>A\<close> and every seed set \<open>S\<close> from which fewer than \<open>2^31\<close>
  nodes are reachable (so that the counter of type \<open>int\<close> does not overflow),
  \<open>reachable_from\<close> returns the number of distinct nodes reachable from \<open>S\<close> along the
  directed edges of \<open>A\<close>. Every seed is among them, and a seed without an entry in the
  adjacency map is counted and reaches nothing else. The empty seed set gives 0, and
  the count is at least the size of \<open>S\<close>.
\<close>

theorem reachable_from_counts_reachable_nodes:
  assumes "finite S" and "card (reach A S) < 2 ^ 31"
  shows "fst (reachable_from A S) = int (card (reach A S)) \<and>
         fst (reachable_from A S) < 2 ^ 31 \<and>
         S \<subseteq> reach A S \<and>
         (\<forall>s. map_of A s = None \<longrightarrow> fst (reachable_from A {s}) = 1) \<and>
         fst (reachable_from A {}) = 0 \<and>
         int (card S) \<le> fst (reachable_from A S)"
proof -
  have "fst (reachable_from A {s}) = 1" if "map_of A s = None" for s
    using reachable_from_count [of "{s}" A] reach_absent_seed [OF that] by simp
  moreover have "fst (reachable_from A {}) = 0"
    using reachable_from_count [of "{}" A] by simp
  moreover from assms(2) have "int (card (reach A S)) < 2 ^ 31" by simp
  ultimately show ?thesis
    using reachable_from_count [OF assms(1), of A] card_seeds_le_reach [OF assms(1), of A]
      seeds_in_reach [of S A]
    by simp
qed

theorem reachable_from_counts_reachable_nodes_witness:
  "finite {1 :: int, 5} \<and> card (reach [(1, [2, 3]), (2, [4])] {1, 5}) < 2 ^ 31 \<and>
   fst (reachable_from [(1, [2, 3]), (2, [4])] {1, 5}) =
     int (card (reach [(1, [2, 3]), (2, [4])] {1, 5})) \<and>
   map_of [(1, [2, 3]), (2, [4])] (5 :: int) = None \<and>
   fst (reachable_from [(1, [2, 3]), (2, [4])] {5}) = 1 \<and>
   int (card {1 :: int, 5}) \<le> fst (reachable_from [(1, [2, 3]), (2, [4])] {1, 5})"
proof -
  have fin: "finite {1 :: int, 5}" by simp
  have "fst (reachable_from [(1, [2, 3]), (2, [4])] {1, 5}) = 5" by code_simp
  with card_reach_eq [OF fin, of "[(1, [2, 3]), (2, [4])]"]
  have small: "card (reach [(1, [2, 3]), (2, [4])] {1, 5}) < 2 ^ 31" by simp
  from reachable_from_counts_reachable_nodes [OF fin small] fin small show ?thesis
    by simp
qed

text \<open>
  C8. On every cascade, cyclic or not, \<open>reachable_from\<close> terminates: each round of the
  loop \<open>while (!Q.empty())\<close> descends in the well-founded order \<open>bfs_order\<close>. No node
  is counted twice: when fewer than \<open>2^31\<close> nodes are reachable, so that the counter
  does not overflow, the result is the size of a set of nodes, at most the number of
  nodes present. On the cycle 1 \<rightarrow> 2 \<rightarrow> 3 \<rightarrow> 1 with seed set {1} the result is 3.
\<close>

theorem reachable_from_terminates_on_cycles:
  "wf bfs_order \<and>
   (\<forall>A u Q explored r vs A' Q' explored' r'.
      cascade_index A u = (vs, A') \<and> visit vs (Q, explored, r) = (Q', explored', r') \<longrightarrow>
      ((A', Q', explored', r'), (A, u # Q, explored, r)) \<in> bfs_order) \<and>
   (\<forall>A S. finite S \<and> card (reach A S) < 2 ^ 31 \<longrightarrow>
      fst (reachable_from A S) = int (card (reach A S)) \<and>
      fst (reachable_from A S) \<le> int (card (S \<union> targets A))) \<and>
   fst (reachable_from [(1, [2]), (2, [3]), (3, [1])] {1}) = 3"
proof -
  have cyc: "fst (reachable_from [(1, [2]), (2, [3]), (3, [1])] {1}) = 3"
    by code_simp
  have once: "\<forall>A S. finite S \<and> card (reach A S) < 2 ^ 31 \<longrightarrow>
      fst (reachable_from A S) = int (card (reach A S)) \<and>
      fst (reachable_from A S) \<le> int (card (S \<union> targets A))"
  proof (intro allI impI)
    fix A S assume "finite S \<and> card (reach A S) < 2 ^ 31"
    then have fin: "finite S" ..
    from reachable_from_count [OF fin, of A] reach_bound [OF fin, of A]
    show "fst (reachable_from A S) = int (card (reach A S)) \<and>
          fst (reachable_from A S) \<le> int (card (S \<union> targets A))" by simp
  qed
  have step: "\<forall>A u Q explored r vs A' Q' explored' r'.
      cascade_index A u = (vs, A') \<and> visit vs (Q, explored, r) = (Q', explored', r') \<longrightarrow>
      ((A', Q', explored', r'), (A, u # Q, explored, r)) \<in> bfs_order"
  proof (intro allI impI)
    fix A u Q explored r vs A' Q' explored' r'
    assume "cascade_index A u = (vs, A') \<and> visit vs (Q, explored, r) = (Q', explored', r')"
    then have "cascade_index A u = (vs, A')" "visit vs (Q, explored, r) = (Q', explored', r')"
      by simp_all
    then show "((A', Q', explored', r'), (A, u # Q, explored, r)) \<in> bfs_order"
      by (rule bfs_step_decreases)
  qed
  from wf_bfs_order step once cyc show ?thesis
    by (intro conjI)
qed

theorem reachable_from_terminates_on_cycles_witness:
  "cascade_index [(1, [2]), (2, [3]), (3, [1])] 1 = ([2], [(1, [2]), (2, [3]), (3, [1])]) \<and>
   visit [2] ([], [1 \<mapsto> True], 1) = ([2], [1 \<mapsto> True, 2 \<mapsto> True], 2) \<and>
   (([(1, [2]), (2, [3]), (3, [1])], [2], [1 \<mapsto> True, 2 \<mapsto> True], 2),
    ([(1, [2]), (2, [3]), (3, [1])], [1], [1 \<mapsto> True], 1)) \<in> bfs_order \<and>
   finite {1 :: int} \<and> card (reach [(1, [2]), (2, [3]), (3, [1])] {1}) < 2 ^ 31 \<and>
   fst (reachable_from [(1, [2]), (2, [3]), (3, [1])] {1}) \<le>
     int (card ({1} \<union> targets [(1, [2]), (2, [3]), (3, [1])]))"
proof -
  have idx: "cascade_index [(1, [2]), (2, [3]), (3, [1])] 1 = ([2], [(1, [2]), (2, [3]), (3, [1])])"
    by (simp add: cascade_index_def)
  have vis: "visit [2] ([], [1 \<mapsto> True], 1) = ([2], [1 \<mapsto> True, 2 \<mapsto> True], 2)"
    by (simp add: explored_index_def)
  note step = reachable_from_terminates_on_cycles [THEN conjunct2, THEN conjunct1, rule_format]
  note bound = reachable_from_terminates_on_cycles
    [THEN conjunct2, THEN conjunct2, THEN conjunct1, rule_format, THEN conjunct2]
  have fin: "finite {1 :: int}" by simp
  have "fst (reachable_from [(1, [2]), (2, [3]), (3, [1])] {1}) = 3" by code_simp
  with card_reach_eq [OF fin, of "[(1, [2]), (2, [3]), (3, [1])]"]
  have small: "card (reach [(1, [2]), (2, [3]), (3, [1])] {1}) < 2 ^ 31" by simp
  from idx vis step [OF conjI [OF idx vis]] fin small bound [OF conjI [OF fin small]]
  show ?thesis
    by (intro conjI)
qed

text \<open>
  C5 does not hold as stated: \<open>A[u]\<close> inserts an entry with an empty vector for every
  node taken from the queue that had none, so the map of the caller changes. Here node
  2 has no entry before the call and an empty one after it.
\<close>

theorem reachable_from_mutates_cascade_counterexample:
  "map_of [(1, [2])] (2 :: int) = None \<and>
   map_of (snd (reachable_from [(1, [2])] {1})) 2 = Some [] \<and>
   snd (reachable_from [(1, [2])] {1}) \<noteq> [(1, [2])]"
  by (simp add: reachable_from_def cascade_index_def explored_index_def)

text \<open>
  C5, amended. \<open>reachable_from\<close> only reads the seed set. It leaves every entry of the
  map \<open>A\<close> as it was, and adds an entry with an empty vector for exactly the reachable
  nodes that had no entry; nothing is removed and no adjacency vector is changed.
\<close>

theorem reachable_from_adds_empty_entries:
  assumes "finite S"
  shows "map_of (snd (reachable_from A S)) k =
           (if k \<in> dom (map_of A) then map_of A k
            else if k \<in> reach A S then Some [] else None)"
  using reachable_from_correct(2) [OF assms, of A] by (cases "reachable_from A S") simp

theorem reachable_from_adds_empty_entries_witness:
  "finite {1 :: int} \<and>
   map_of (snd (reachable_from [(1, [2])] {1})) 1 = Some [2] \<and>
   map_of (snd (reachable_from [(1, [2])] {1})) 2 = Some [] \<and>
   map_of (snd (reachable_from [(1, [2])] {1})) 3 = None"
proof -
  have "(1, 2) \<in> edges [(1, [2])]" by (simp add: edges_def)
  then have a: "2 \<in> reach [(1, [2])] {1}" by (auto simp: reach_def)
  have b: "3 \<notin> reach [(1, [2])] {1}"
    using reach_subset [of "[(1, [2])]" "{1}"] by (auto simp: targets_def)
  show ?thesis
    using reachable_from_adds_empty_entries [of "{1}" "[(1, [2])]" 1]
      reachable_from_adds_empty_entries [of "{1}" "[(1, [2])]" 2]
      reachable_from_adds_empty_entries [of "{1}" "[(1, [2])]" 3] a b
    by (simp add: dom_def)
qed

text \<open>
  C6. For seed sets \<open>S \<subseteq> T\<close> with fewer than \<open>2^31\<close> nodes reachable from \<open>T\<close> (so
  that no counter overflows), \<open>reachable_from\<close> counts at most as many nodes from \<open>S\<close>
  as from \<open>T\<close>. So \<open>calculate_influence\<close> over a fixed vector of cascades, in each of
  which fewer than \<open>2^31\<close> nodes are reachable from \<open>T\<close>, does not decrease when the
  candidate set grows: over at least one cascade the value for \<open>S\<close> is at most the
  value for \<open>T\<close>, and over none both values are NaN.
\<close>

theorem reachability_and_influence_monotone:
  assumes "S \<subseteq> T" and "finite T" and "card (reach A T) < 2 ^ 31"
  shows "fst (reachable_from A S) \<le> fst (reachable_from A T) \<and>
         fst (reachable_from A T) < 2 ^ 31 \<and>
         ((\<forall>B \<in> set cascades. card (reach B T) < 2 ^ 31) \<longrightarrow>
            (cascades \<noteq> [] \<longrightarrow>
               dbl_le (fst (calculate_influence cascades S))
                      (fst (calculate_influence cascades T))) \<and>
            \<not> dbl_less (fst (calculate_influence cascades T))
                       (fst (calculate_influence cascades S)))"
proof -
  have "\<not> dbl_less (fst (calculate_influence cascades T)) (fst (calculate_influence cascades S))"
  proof (cases "cascades = []")
    case True
    then show ?thesis by (simp add: calculate_influence_def dbl_of_nat_def)
  next
    case False
    from calculate_influence_mono [OF assms(1,2) False] show ?thesis
      by (simp add: calculate_influence_nonempty [OF False])
  qed
  moreover from assms(2,3) have "fst (reachable_from A T) < 2 ^ 31"
    by (simp add: reachable_from_count)
  ultimately show ?thesis
    using reachable_from_mono [OF assms(1,2)] calculate_influence_mono [OF assms(1,2)]
    by simp
qed

theorem reachability_and_influence_monotone_witness:
  "{1 :: int} \<subseteq> {1, 3} \<and> finite {1 :: int, 3} \<and>
   card (reach [(1, [2])] {1, 3}) < 2 ^ 31 \<and>
   card (reach [(3, [4])] {1, 3}) < 2 ^ 31 \<and>
   ([[(1, [2])], [(3, [4])]] :: cascade list) \<noteq> [] \<and>
   fst (reachable_from [(1, [2])] {1}) \<le> fst (reachable_from [(1, [2])] {1, 3}) \<and>
   dbl_le (fst (calculate_influence [[(1, [2])], [(3, [4])]] {1}))
          (fst (calculate_influence [[(1, [2])], [(3, [4])]] {1, 3}))"
proof -
  have sub: "{1 :: int} \<subseteq> {1, 3}" and fin: "finite {1 :: int, 3}" by simp_all
  have "fst (reachable_from [(1, [2])] {1, 3}) = 3" and "fst (reachable_from [(3, [4])] {1, 3}) = 3"
    by code_simp+
  with card_reach_eq [OF fin, of "[(1, [2])]"] card_reach_eq [OF fin, of "[(3, [4])]"]
  have s1: "card (reach [(1, [2])] {1, 3}) < 2 ^ 31"
    and s2: "card (reach [(3, [4])] {1, 3}) < 2 ^ 31" by simp_all
  then have all: "\<forall>B \<in> set [[(1, [2])], [(3, [4])]]. card (reach B {1, 3}) < 2 ^ 31" by simp
  have ne: "([[(1, [2])], [(3, [4])]] :: cascade list) \<noteq> []" by simp
  note m = reachability_and_influence_monotone
    [OF sub fin s1, of "[[(1, [2])], [(3, [4])]]"]
  from m have a: "fst (reachable_from [(1, [2])] {1}) \<le> fst (reachable_from [(1, [2])] {1, 3})"
    by (rule conjunct1)
  from m all ne have b: "dbl_le (fst (calculate_influence [[(1, [2])], [(3, [4])]] {1}))
          (fst (calculate_influence [[(1, [2])], [(3, [4])]] {1, 3}))"
    by blast
  from sub fin s1 s2 ne a b show ?thesis by (intro conjI)
qed

section \<open>Claims about \<open>calculate_influence\<close>\<close>

text \<open>
  C7. Over a non-empty vector of cascades, \<open>calculate_influence\<close> returns the sum of
  the counts of \<open>reachable_from\<close> divided by the number of cascades, in double
  arithmetic (the sum is exact up to \<open>2^53\<close>, which counts of type \<open>int\<close> over fewer
  than \<open>2^22\<close> cascades cannot exceed). For exactly two cascades with counts \<open>r1\<close> and
  \<open>r2\<close> it is exactly \<open>(r1 + r2) / 2\<close>.
\<close>

theorem calculate_influence_is_average:
  assumes "cascades \<noteq> []" and "finite S" and "total_reach cascades S \<le> 2 ^ 53"
  shows "fst (calculate_influence cascades S) =
           dbl_div (dbl_of_int (\<Sum>A\<leftarrow>cascades. fst (reachable_from A S)))
                   (dbl_of_nat (length cascades)) \<and>
         (\<forall>A1 A2. cascades = [A1, A2] \<longrightarrow>
            fst (calculate_influence cascades S) =
              Fin (of_int (fst (reachable_from A1 S) + fst (reachable_from A2 S)) / 2))"
proof -
  have avg: "fst (calculate_influence cascades S) =
           dbl_div (dbl_of_int (total_reach cascades S)) (dbl_of_nat (length cascades))"
    using assms by (rule calculate_influence_exact_sum)
  have "fst (calculate_influence cascades S) =
          Fin (of_int (fst (reachable_from A1 S) + fst (reachable_from A2 S)) / 2)"
    if c: "cascades = [A1, A2]" for A1 A2
  proof -
    let ?t = "fst (reachable_from A1 S) + fst (reachable_from A2 S)"
    from c have t: "total_reach cascades S = ?t" by (simp add: total_reach_def)
    have "0 \<le> ?t"
      using reachable_from_nonneg [OF assms(2), of A1] reachable_from_nonneg [OF assms(2), of A2]
      by simp
    define x :: rat where "x = of_int ?t"
    from \<open>0 \<le> ?t\<close> assms(3) t have e: "fl x = x"
      unfolding x_def by (intro fl_of_int) simp
    from c have n: "dbl_of_nat (length cascades) = Fin 2"
      by (simp add: dbl_of_nat_def)
    have "dbl_div (dbl_of_int ?t) (Fin 2) = Fin (fl (fl x / 2))"
      by (simp add: dbl_of_int_def x_def)
    also have "fl (fl x / 2) = x / 2"
      by (simp only: e fl_half)
    finally show ?thesis
      unfolding avg t n x_def .
  qed
  with avg show ?thesis by (simp add: total_reach_def)
qed

theorem calculate_influence_is_average_witness:
  "([[(1, [2])], [(3, [4])]] :: cascade list) \<noteq> [] \<and> finite {1 :: int} \<and>
   total_reach [[(1, [2])], [(3, [4])]] {1} \<le> 2 ^ 53 \<and>
   fst (calculate_influence [[(1, [2])], [(3, [4])]] {1}) =
     Fin (of_int (fst (reachable_from [(1, [2])] {1}) + fst (reachable_from [(3, [4])] {1})) / 2)"
proof -
  have t: "total_reach [[(1, [2])], [(3, [4])]] {1} = 3"
    unfolding total_reach_def by code_simp
  then have b: "total_reach [[(1, [2])], [(3, [4])]] {1} \<le> 2 ^ 53" by simp
  have ne: "([[(1, [2])], [(3, [4])]] :: cascade list) \<noteq> []" by simp
  have fin: "finite {1 :: int}" by simp
  note avg = calculate_influence_is_average [OF ne fin b, THEN conjunct2, rule_format, OF refl]
  from ne fin b avg show ?thesis by (intro conjI)
qed

text \<open>
  C10. \<open>calculate_influence\<close> leaves the vector of cascades as it received it. Run on
  the memory, a round copies element \<open>i\<close> into the cell behind the vector and calls
  \<open>reachable_from\<close> on a reference to that cell: the call writes the map it leaves,
  with the entries it inserted, into that cell and into no cell of the vector, and the
  cell is popped at the end of the round. So the memory after the call is the vector
  as it was, and the value is the one of \<open>calculate_influence\<close>. For the vector with
  the one cascade 1 \<rightarrow> 2 and the seed set {1}, the call on the copy leaves an entry for
  node 2 in the copy; called on a reference to the element itself it would leave it
  in the vector.
\<close>

theorem calculate_influence_writes_only_its_copy:
  "calculate_influence_mem cascades S = calculate_influence cascades S \<and>
   snd (calculate_influence_mem cascades S) = cascades \<and>
   (\<forall>i < length cascades.
      reachable_from_ref (cascades @ [cascades ! i]) (length cascades) S =
        (fst (reachable_from (cascades ! i) S),
         cascades @ [snd (reachable_from (cascades ! i) S)])) \<and>
   reachable_from_ref [[(1, [2])], [(1, [2])]] 1 {1} = (2, [[(1, [2])], [(2, []), (1, [2])]]) \<and>
   reachable_from_ref [[(1, [2])]] 0 {1} = (2, [[(2, []), (1, [2])]]) \<and>
   snd (calculate_influence_mem [[(1, [2])]] {1}) = [[(1, [2])]]"
proof -
  have eq: "calculate_influence_mem cascades S = calculate_influence cascades S"
    by (rule calculate_influence_mem_eq)
  have keep: "snd (calculate_influence_mem cascades S) = cascades"
    by (simp add: calculate_influence_mem_eq calculate_influence_def Let_def)
  have copy: "\<forall>i < length cascades.
      reachable_from_ref (cascades @ [cascades ! i]) (length cascades) S =
        (fst (reachable_from (cascades ! i) S),
         cascades @ [snd (reachable_from (cascades ! i) S)])"
    by (simp add: reachable_from_ref_copy)
  have ex1: "reachable_from_ref [[(1, [2])], [(1, [2])]] 1 {1} =
               (2, [[(1, [2])], [(2, []), (1, [2])]])"
    by code_simp
  have ex2: "reachable_from_ref [[(1, [2])]] 0 {1} = (2, [[(2, []), (1, [2])]])"
    by code_simp
  have ex3: "snd (calculate_influence_mem [[(1, [2])]] {1}) = [[(1, [2])]]"
    by code_simp
  from eq keep copy ex1 ex2 ex3 show ?thesis by (intro conjI)
qed

theorem calculate_influence_writes_only_its_copy_witness:
  "(0 :: nat) < length [[(1, [2])] :: cascade] \<and>
   reachable_from_ref ([[(1, [2])]] @ [[[(1, [2])]] ! 0]) (length [[(1, [2])] :: cascade]) {1} =
     (fst (reachable_from ([[(1, [2])]] ! 0) {1}),
      [[(1, [2])]] @ [snd (reachable_from ([[(1, [2])]] ! 0) {1})]) \<and>
   snd (reachable_from ([[(1, [2])]] ! 0) {1}) = [(2, []), (1, [2])]"
proof -
  have len: "(0 :: nat) < length [[(1, [2])] :: cascade]" by simp
  note copy = calculate_influence_writes_only_its_copy
    [of "[[(1, [2])]]" "{1}", THEN conjunct2, THEN conjunct2, THEN conjunct1, rule_format, OF len]
  have "snd (reachable_from ([[(1, [2])]] ! 0) {1}) = [(2, []), (1, [2])]"
    by code_simp
  with len copy show ?thesis by (intro conjI)
qed

text \<open>
  C3 does not hold as stated: with no cascade the division is \<open>0.0 / 0\<close>, unguarded,
  and the result is NaN, not 0.0; the function has no error path.
\<close>

theorem calculate_influence_empty_counterexample:
  "fst (calculate_influence [] {1}) = NaN \<and> fst (calculate_influence [] {1}) \<noteq> Fin 0"
  by (simp add: calculate_influence_def dbl_of_nat_def)

text \<open>
  C3, amended. For every seed set, \<open>calculate_influence\<close> on an empty vector of
  cascades returns NaN.
\<close>

theorem calculate_influence_empty_is_nan:
  "fst (calculate_influence [] S) = NaN"
  by (simp add: calculate_influence_def dbl_of_nat_def)

section \<open>Claims about the greedy loop\<close>

text \<open>
  C1, evaluated in a round that finds no eligible node. With two nodes and one cascade
  the first two rounds insert the nodes 1 and 2. The third round finds every node of
  the universe in \<open>S\<close>, and still inserts: the initial value \<open>-1\<close> of \<open>max_delta_node\<close>,
  which is no node of the universe. With the constant \<open>PARAM_K = 1\<close> of the source and
  no cascade loaded, the first round does the same. In the rounds that find an
  eligible node the selection is as claimed (\<open>greedy_round_picks_first_maximum\<close>).
\<close>

theorem greedy_round_without_candidate:
  "greedy {1, 2} [[(1, [2])]] 2 = ({1, 2}, Fin 2) \<and>
   {1, 2} - fst (greedy {1, 2} [[(1, [2])]] 2) = ({} :: int set) \<and>
   greedy_round {1, 2} [[(1, [2])]] ({1, 2}, Fin 2) = ({- 1, 1, 2}, Fin (- 1)) \<and>
   greedy {1, 2} [[(1, [2])]] 3 = ({- 1, 1, 2}, Fin (- 1)) \<and>
   (- 1 :: int) \<notin> {1, 2} \<and>
   greedy_round {} [] ({}, Fin 0) = ({- 1}, Fin (- 1))"
  by code_simp

text \<open>
  C2, evaluated where more rounds are asked for than the universe has nodes. With two
  nodes and five rounds the result has three elements, one of them the initial value
  \<open>-1\<close> of \<open>max_delta_node\<close>, and the influence reported is \<open>-1\<close>. The same happens
  with the constant \<open>PARAM_K = 1\<close> of the source when no cascade was loaded.
\<close>

theorem greedy_exhausted_universe:
  "greedy {1, 2} [[(1, [2])]] 5 = ({- 1, 1, 2}, Fin (- 1)) \<and>
   card (fst (greedy {1, 2} [[(1, [2])]] 5)) = 3 \<and>
   greedy {} [] 1 = ({- 1}, Fin (- 1))"
  by code_simp

text \<open>
  C9, evaluated on two nodes, one cascade and three rounds: the values of
  \<open>previous_influence\<close> are 2, 2 and \<open>-1\<close>. While rounds find an eligible node the
  values do not decrease (\<open>influence_trace_monotone_within_universe\<close>).
\<close>

theorem influence_trace_drops:
  "influence_trace {1, 2} [[(1, [2])]] 3 = [Fin 2, Fin 2, Fin (- 1)] \<and>
   dbl_less (Fin (- 1)) (Fin 2)"
  by code_simp

end
